theory Spec2Isabelle
  imports Main
begin

section \<open>The parser combinators used by the yarn.lock grammars\<close>

text \<open>
  Modelled from the spec: the combinator library \<^verbatim>\<open>semdep.external.parsy\<close> (\<^verbatim>\<open>string\<close>,
  \<^verbatim>\<open>any_char\<close>, \<^verbatim>\<open>peek\<close>, \<^verbatim>\<open>success\<close>, \<^verbatim>\<open>regex\<close> and the methods \<^verbatim>\<open>bind\<close>, \<^verbatim>\<open>map\<close>,
  \<^verbatim>\<open>many\<close>, \<^verbatim>\<open>optional\<close>, \<^verbatim>\<open>sep_by\<close>, \<^verbatim>\<open>>>\<close>, \<^verbatim>\<open><<\<close>, \<^verbatim>\<open>+\<close>, \<^verbatim>\<open>|\<close>) is imported by
  \<^verbatim>\<open>yarn.py\<close> but is not among the sources. The spec assumes it as a pre-existing library of
  "sequencing, alternation, repetition, regex matching" working by "a single backtracking
  descent" over the full text "with explicit backtracking (save/restore position) at each
  alternation point". A parser is therefore a function of the text and a position index in
  it, returning the new index and a value, or nothing when it fails; a failed alternative
  or repetition step leaves the index where it was.
\<close>

type_synonym 'a parser = "string \<Rightarrow> nat \<Rightarrow> (nat \<times> 'a) option"

definition success :: "'a \<Rightarrow> 'a parser" where
  "success v s i = Some (i, v)"

definition bind :: "'a parser \<Rightarrow> ('a \<Rightarrow> 'b parser) \<Rightarrow> 'b parser" where
  "bind p f s i = (case p s i of None \<Rightarrow> None | Some (j, a) \<Rightarrow> f a s j)"

definition map_p :: "'a parser \<Rightarrow> ('a \<Rightarrow> 'b) \<Rightarrow> 'b parser" where
  "map_p p f = bind p (\<lambda>a. success (f a))"

text \<open>\<^verbatim>\<open>p >> q\<close> keeps the value of \<open>q\<close>, \<^verbatim>\<open>p << q\<close> the value of \<open>p\<close>, and \<^verbatim>\<open>p + q\<close>
  concatenates the two values.\<close>

definition then_p :: "'a parser \<Rightarrow> 'b parser \<Rightarrow> 'b parser" where
  "then_p p q = bind p (\<lambda>_. q)"

definition skip_p :: "'a parser \<Rightarrow> 'b parser \<Rightarrow> 'a parser" where
  "skip_p p q = bind p (\<lambda>a. bind q (\<lambda>_. success a))"

definition add_p :: "'a list parser \<Rightarrow> 'a list parser \<Rightarrow> 'a list parser" where
  "add_p p q = bind p (\<lambda>a. bind q (\<lambda>b. success (a @ b)))"

definition alt_p :: "'a parser \<Rightarrow> 'a parser \<Rightarrow> 'a parser" where
  "alt_p p q s i = (case p s i of None \<Rightarrow> q s i | Some r \<Rightarrow> Some r)"

definition string_p :: "string \<Rightarrow> string parser" where
  "string_p lit s i =
     (if take (length lit) (drop i s) = lit then Some (i + length lit, lit) else None)"

definition any_char :: "char parser" where
  "any_char s i = (if i < length s then Some (Suc i, s ! i) else None)"

definition peek :: "'a parser \<Rightarrow> 'a parser" where
  "peek p s i = (case p s i of None \<Rightarrow> None | Some (j, a) \<Rightarrow> Some (i, a))"

text \<open>\<^verbatim>\<open>p.optional(default)\<close>; \<open>optional_None\<close> is \<^verbatim>\<open>p.optional()\<close>, whose default is
  Python's \<^verbatim>\<open>None\<close>.\<close>

definition optional :: "'a parser \<Rightarrow> 'a \<Rightarrow> 'a parser" where
  "optional p dflt s i = (case p s i of None \<Rightarrow> Some (i, dflt) | Some r \<Rightarrow> Some r)"

definition optional_None :: "'a parser \<Rightarrow> 'a option parser" where
  "optional_None p s i =
     (case p s i of None \<Rightarrow> Some (i, None) | Some (j, a) \<Rightarrow> Some (j, Some a))"

text \<open>
  \<^verbatim>\<open>p.many()\<close> repeats \<open>p\<close> until it fails and returns the values collected so far; it never
  fails itself. The library's loop does not return when \<open>p\<close> keeps succeeding without
  consuming input. The recursion below continues only after a step that moved the index
  forward inside the text. Every repetition of the two grammars has such steps only, so
  neither \<open>None\<close> of the recursion is reached by them (\<open>many_returns\<close>,
  \<open>grammar_repetitions_return\<close>).
\<close>

function many :: "'a parser \<Rightarrow> 'a list parser" where
  "many p s i =
     (case p s i of
        None \<Rightarrow> Some (i, [])
      | Some (j, a) \<Rightarrow>
          if i < j \<and> j \<le> length s
          then (case many p s j of None \<Rightarrow> None | Some (k, as) \<Rightarrow> Some (k, a # as))
          else None)"
  by pat_completeness auto
termination
  by (relation "measure (\<lambda>(p, s, i). length s - i)") auto

declare many.simps [simp del]

text \<open>\<^verbatim>\<open>p.sep_by(sep)\<close> with the library's default bounds (no minimum, no maximum): one \<open>p\<close>
  followed by any number of \<^verbatim>\<open>sep >> p\<close>, or else the empty list.\<close>

definition sep_by :: "'a parser \<Rightarrow> 'b parser \<Rightarrow> 'a list parser" where
  "sep_by p sep =
     alt_p (add_p (map_p p (\<lambda>x. [x])) (many (then_p sep p))) (success [])"

text \<open>\<^verbatim>\<open>parser.parse(text)\<close>: the parser must succeed at index 0 and consume the whole
  text.\<close>

definition parse :: "'a parser \<Rightarrow> string \<Rightarrow> 'a option" where
  "parse p s =
     (case p s 0 of None \<Rightarrow> None | Some (j, a) \<Rightarrow> if j = length s then Some a else None)"

section \<open>The helpers of \<^verbatim>\<open>semdep.parsers.util\<close>\<close>

text \<open>
  Modelled from the spec: \<^verbatim>\<open>semdep/parsers/util.py\<close> (\<^verbatim>\<open>upto\<close>, \<^verbatim>\<open>consume_line\<close>,
  \<^verbatim>\<open>quoted\<close>, \<^verbatim>\<open>pair\<close>, \<^verbatim>\<open>mark_line\<close>, \<^verbatim>\<open>safe_path_parse\<close>, \<^verbatim>\<open>transitivity\<close>) is imported by
  \<^verbatim>\<open>yarn.py\<close> but is not among the sources.

  \<^item> \<open>upto\<close> is the spec's "bounded scan": the text up to the next delimiter character
    ("everything up to and including the next \<^verbatim>\<open>@\<close>", "the remainder up to a
    dialect-specific terminator"). The scan is bounded by the line as well: a header and a
    field are lines ("each field line is parsed independently", a "truncated block" must
    fail), so a newline ends the scan like a delimiter. It takes the longest run of
    characters that are neither delimiters nor newlines, which must not be empty; with
    \<^verbatim>\<open>consume_other\<close> the character after the run (a delimiter or the newline) is consumed
    as well and must be there.
  \<^item> \<open>consume_line\<close>: lines that are not data fields "must be consumed up to end-of-line
    and discarded without producing output"; the line's remainder must not be empty, since
    a block's field lines end at the blank line that separates blocks.
  \<^item> \<open>quoted p\<close> is \<open>p\<close> between two double quotes; \<open>pair\<close> runs two parsers in sequence.
  \<^item> \<open>mark_line\<close>: "each block's header line is prefixed with its 1-based source line number
    at parse time".
\<close>

definition not_any :: "char list \<Rightarrow> string parser" where
  "not_any chars s i =
     (let run = takeWhile (\<lambda>c. c \<notin> set chars) (drop i s)
      in if run = [] then None else Some (i + length run, run))"

definition upto :: "char list \<Rightarrow> bool \<Rightarrow> string parser" where
  "upto chars consume_other =
     (if consume_other then skip_p (not_any (chars @ [CHR ''\<newline>''])) any_char
      else not_any (chars @ [CHR ''\<newline>'']))"

definition consume_line :: "('a option) parser" where
  "consume_line = bind (not_any [CHR ''\<newline>'']) (\<lambda>_. success None)"

definition quoted :: "'a parser \<Rightarrow> 'a parser" where
  "quoted p = skip_p (then_p (string_p [CHR 0x22]) p) (string_p [CHR 0x22])"

definition pair :: "'a parser \<Rightarrow> 'b parser \<Rightarrow> ('a \<times> 'b) parser" where
  "pair p1 p2 = bind p1 (\<lambda>a. bind p2 (\<lambda>b. success (a, b)))"

definition line_number_p :: "nat parser" where
  "line_number_p s i = Some (i, Suc (count_list (take i s) CHR ''\<newline>''))"

definition mark_line :: "'a parser \<Rightarrow> (nat \<times> 'a) parser" where
  "mark_line p = bind line_number_p (\<lambda>line. bind p (\<lambda>x. success (line, x)))"

section \<open>Python string methods\<close>

definition startswith :: "string \<Rightarrow> string \<Rightarrow> bool" where
  "startswith s pre = (take (length pre) s = pre)"

definition strip :: "string \<Rightarrow> char list \<Rightarrow> string" where
  "strip s chars =
     rev (dropWhile (\<lambda>c. c \<in> set chars) (rev (dropWhile (\<lambda>c. c \<in> set chars) s)))"

fun split :: "string \<Rightarrow> char \<Rightarrow> string list" where
  "split [] sep = [[]]"
| "split (c # cs) sep =
     (if c = sep then [] # split cs sep
      else (case split cs sep of [] \<Rightarrow> [[c]] | w # ws \<Rightarrow> (c # w) # ws))"

fun join :: "string \<Rightarrow> string list \<Rightarrow> string" where
  "join sep [] = []"
| "join sep [w] = w"
| "join sep (w # v # ws) = w @ sep @ join sep (v # ws)"

section \<open>yarn.lock version 1\<close>

definition source1 :: "bool \<Rightarrow> (string \<times> string) parser" where
  "source1 quoted_flag =
     pair (add_p (optional (string_p ''@'') '''') (upto ''@'' True))
          (upto ([CHR 0x22] @ (if \<not> quoted_flag then '':,'' else [])) False)"

definition multi_source1 :: "(string \<times> string) list parser" where
  "multi_source1 =
     sep_by (alt_p (quoted (source1 True)) (source1 False)) (string_p '', '')"

definition key_value1 :: "(string \<times> string) option parser" where
  "key_value1 =
     bind (many (string_p '' ''))
       (\<lambda>spaces.
          if length spaces \<noteq> 2 then consume_line
          else bind (upto '' :'' False)
                 (\<lambda>key. bind (peek any_char)
                    (\<lambda>next.
                       if next = CHR '':'' then consume_line
                       else then_p (string_p '' '')
                              (bind (upto [CHR ''\<newline>''] False)
                                 (\<lambda>value. success (Some (key, strip value [CHR 0x22])))))))"

text \<open>The dictionary comprehension \<^verbatim>\<open>{x[0]: x[1] for x in xs if x}\<close>: entries are stored in
  order, so a later duplicate key overwrites an earlier one.\<close>

definition fields_of :: "(string \<times> string) option list \<Rightarrow> (string \<rightharpoonup> string)" where
  "fields_of xs =
     foldl (\<lambda>m x. case x of None \<Rightarrow> m | Some (k, v) \<Rightarrow> m(k \<mapsto> v)) Map.empty xs"

type_synonym block = "nat \<times> (string \<times> string) list \<times> (string \<rightharpoonup> string)"

definition yarn_dep1 :: "block parser" where
  "yarn_dep1 =
     mark_line
       (pair (skip_p multi_source1 (string_p '':\<newline>''))
             (map_p (sep_by key_value1 (string_p ''\<newline>'')) fields_of))"

definition YARN1_PREFIX :: string where
  "YARN1_PREFIX =
     ''# THIS IS AN AUTOGENERATED FILE. DO NOT EDIT THIS FILE DIRECTLY.\<newline>'' @
     ''# yarn lockfile v1\<newline>'' @
     ''\<newline>''"

definition yarn1 :: "block list parser" where
  "yarn1 =
     skip_p
       (then_p (then_p (string_p YARN1_PREFIX) (optional_None (string_p ''\<newline>'')))
               (sep_by yarn_dep1 (string_p ''\<newline>\<newline>'')))
       (optional_None (string_p ''\<newline>''))"

section \<open>yarn.lock versions 2 and 3\<close>

definition remove_npm_prefix :: "string \<Rightarrow> string" where
  "remove_npm_prefix s = (if startswith s ''npm:'' then drop 4 s else s)"

definition source2 :: "(string \<times> string) parser" where
  "source2 =
     pair (add_p (optional (string_p ''@'') '''') (upto ''@'' True))
          (map_p (upto [CHR 0x22, CHR '',''] False) remove_npm_prefix)"

definition multi_source2 :: "(string \<times> string) list parser" where
  "multi_source2 = quoted (sep_by source2 (string_p '', ''))"

definition key_value2 :: "(string \<times> string) option parser" where
  "key_value2 =
     bind (many (string_p '' ''))
       (\<lambda>spaces.
          if length spaces \<noteq> 2 then consume_line
          else bind (upto '':'' False)
                 (\<lambda>key. then_p (string_p '':'')
                    (bind (peek any_char)
                       (\<lambda>next.
                          if next = CHR ''\<newline>'' then success None
                          else then_p (string_p '' '')
                                 (bind (upto [CHR ''\<newline>''] False)
                                    (\<lambda>value. success (Some (key, strip value [CHR 0x22]))))))))"

definition yarn_dep2 :: "block parser" where
  "yarn_dep2 =
     mark_line
       (pair (skip_p multi_source2 (string_p '':\<newline>''))
             (map_p (sep_by key_value2 (string_p ''\<newline>'')) fields_of))"

definition YARN2_PREFIX :: string where
  "YARN2_PREFIX =
     ''# This file is generated by running \"yarn install\" inside your project.\<newline>'' @
     ''# Manual changes might be lost - proceed with caution!\<newline>''"

text \<open>\<^verbatim>\<open>regex(YARN2_METADATA_REGEX)\<close>. The pattern is a blank line, \<^verbatim>\<open>__metadata:\<close>, and the
  two lines \<^verbatim>\<open>  version: \d+\<close> and \<^verbatim>\<open>  cacheKey: \d+\<close>, each ended by a newline; \<^verbatim>\<open>\d+\<close> is
  a longest non-empty run of decimal digits (the character after it must be a newline,
  which is no digit, so the pattern never gives a digit back). Which characters \<^verbatim>\<open>\d\<close>
  matches is a table of Python's \<^verbatim>\<open>re\<close> module (every Unicode decimal digit, not only
  \<^verbatim>\<open>0\<close> to \<^verbatim>\<open>9\<close>); the grammar takes it as the parameter \<open>decimal\<close>.\<close>

definition digits :: "(char \<Rightarrow> bool) \<Rightarrow> string parser" where
  "digits decimal s i =
     (let run = takeWhile decimal (drop i s)
      in if run = [] then None else Some (i + length run, run))"

definition YARN2_METADATA_REGEX :: "(char \<Rightarrow> bool) \<Rightarrow> string parser" where
  "YARN2_METADATA_REGEX decimal =
     add_p (string_p ''\<newline>__metadata:\<newline>  version: '')
       (add_p (digits decimal)
          (add_p (string_p ''\<newline>  cacheKey: '')
             (add_p (digits decimal) (string_p ''\<newline>''))))"

definition yarn2 :: "(char \<Rightarrow> bool) \<Rightarrow> block list parser" where
  "yarn2 decimal =
     skip_p
       (then_p
          (then_p (then_p (string_p YARN2_PREFIX)
                          (optional_None (YARN2_METADATA_REGEX decimal)))
                  (optional_None (string_p ''\<newline>'')))
          (sep_by yarn_dep2 (string_p ''\<newline>\<newline>'')))
       (optional_None (string_p ''\<newline>''))"

section \<open>Output records and the manifest\<close>

datatype ecosystem = Npm

datatype transitivity = Direct | Transitive | Unknown

record found_dependency =
  package :: string
  version :: string
  ecosystem :: ecosystem
  allowed_hashes :: "string \<rightharpoonup> string list"
  resolved_url :: "string option"
  transitivity :: transitivity
  line_number :: nat

text \<open>
  The external collaborators of record assembly, taken as parameters: the JSON parser of
  the manifest (\<open>json_doc_parse path\<close> stands for
  \<^verbatim>\<open>safe_path_parse(manifest_path, json_doc, ParserName("jsondoc"))\<close>, nothing when the file
  cannot be parsed), the two accessors of a parsed JSON value (a dictionary is listed by
  its items), the decoder of a version 1 \<^verbatim>\<open>integrity\<close> field, whose "exact decoding rule
  is an external collaborator's contract", and the table of the characters that Python's
  \<^verbatim>\<open>\d\<close> matches. A parsed JSON value counts as true in the two
  tests \<^verbatim>\<open>if not json_opt\<close> and \<^verbatim>\<open>if not deps\<close> of \<open>get_manifest_deps\<close>: they are false only for
  \<^verbatim>\<open>None\<close>.
\<close>

record ('p, 'j) collaborators =
  json_doc_parse :: "'p \<Rightarrow> 'j option"
  as_dict :: "'j \<Rightarrow> (string \<times> 'j) list"
  as_str :: "'j \<Rightarrow> string"
  extract_npm_lockfile_hash :: "string option \<Rightarrow> (string \<rightharpoonup> string list)"
  decimal_digit :: "char \<Rightarrow> bool"

definition get_manifest_deps ::
  "('p, 'j) collaborators \<Rightarrow> 'p option \<Rightarrow> (string \<times> string) set option" where
  "get_manifest_deps E manifest_path =
     (case manifest_path of
        None \<Rightarrow> None
      | Some path \<Rightarrow>
          (case json_doc_parse E path of
             None \<Rightarrow> None
           | Some json_opt \<Rightarrow>
               (let json = as_dict E json_opt
                in case map_of json ''dependencies'' of
                     None \<Rightarrow> Some {}
                   | Some deps \<Rightarrow>
                       Some (set (map (\<lambda>x. (fst x, as_str E (snd x))) (as_dict E deps))))))"

text \<open>
  Modelled from the spec: \<^verbatim>\<open>transitivity\<close> of \<^verbatim>\<open>semdep.parsers.util\<close> is not among the
  sources. "If the manifest set is \<^verbatim>\<open>None\<close> (no manifest provided): classification is
  \<^verbatim>\<open>Unknown\<close>. Else, if any SourceSpec's (name, constraint) literally matches an entry in the
  manifest set: \<^verbatim>\<open>Direct\<close>. Else: \<^verbatim>\<open>Transitive\<close>."
\<close>

definition transitivity_of :: "'a set option \<Rightarrow> 'a list \<Rightarrow> transitivity" where
  "transitivity_of manifest_deps dep_sources =
     (case manifest_deps of
        None \<Rightarrow> Unknown
      | Some deps \<Rightarrow> if \<exists>x \<in> set dep_sources. x \<in> deps then Direct else Transitive)"

text \<open>
  Modelled from the spec: \<^verbatim>\<open>safe_path_parse\<close> of \<^verbatim>\<open>semdep.parsers.util\<close> is not among the
  sources. It runs "the corresponding document grammar over the complete file text once";
  "grammar-level failures are caught at the document-parse boundary", so a failure is the
  value \<^verbatim>\<open>None\<close>. The file's text stands for its path.
\<close>

definition safe_path_parse :: "string \<Rightarrow> 'a parser \<Rightarrow> 'a option" where
  "safe_path_parse text parser = parse parser text"

section \<open>Record assembly\<close>

definition remove_trailing_octothorpe :: "string option \<Rightarrow> string option" where
  "remove_trailing_octothorpe s =
     (case s of
        None \<Rightarrow> None
      | Some s \<Rightarrow> Some (if CHR ''#'' \<in> set s then join ''#'' (butlast (split s CHR ''#'')) else s))"

text \<open>The loop of \<^verbatim>\<open>parse_yarn\<close> over the parsed blocks. The two \<^verbatim>\<open>continue\<close> guards
  (\<^verbatim>\<open>len(sources) < 1\<close>, \<^verbatim>\<open>"version" not in fields\<close>) are the first branches of the two
  case distinctions, which also give \<^verbatim>\<open>sources[0]\<close> and \<^verbatim>\<open>fields["version"]\<close>.\<close>

fun parse_yarn_loop ::
  "('p, 'j) collaborators \<Rightarrow> nat \<Rightarrow> (string \<times> string) set option \<Rightarrow> block list \<Rightarrow>
     found_dependency list" where
  "parse_yarn_loop E yarn_version manifest_deps [] = []"
| "parse_yarn_loop E yarn_version manifest_deps ((line_no, sources, fields') # deps) =
     (case sources of
        [] \<Rightarrow> parse_yarn_loop E yarn_version manifest_deps deps
      | source0 # _ \<Rightarrow>
          (case fields' ''version'' of
             None \<Rightarrow> parse_yarn_loop E yarn_version manifest_deps deps
           | Some fields_version \<Rightarrow>
               (let allowed_hashes =
                      (if yarn_version = 1
                       then extract_npm_lockfile_hash E (fields' ''integrity'')
                       else (case fields' ''checksum'' of
                               None \<Rightarrow> Map.empty
                             | Some checksum \<Rightarrow>
                                 if checksum \<noteq> [] then [''sha512'' \<mapsto> [checksum]]
                                 else Map.empty));
                    resolved_url = fields' ''resolved''
                in \<lparr> package = fst source0,
                     version = fields_version,
                     ecosystem = Npm,
                     allowed_hashes = allowed_hashes,
                     resolved_url = remove_trailing_octothorpe resolved_url,
                     transitivity = transitivity_of manifest_deps sources,
                     line_number = line_no \<rparr>
                   # parse_yarn_loop E yarn_version manifest_deps deps)))"

text \<open>\<^verbatim>\<open>parse_yarn\<close>, given the lockfile's text (reading the file is outside the model).
  \<^verbatim>\<open>if not deps\<close> holds for \<^verbatim>\<open>None\<close> and for the empty list.\<close>

definition parse_yarn ::
  "('p, 'j) collaborators \<Rightarrow> string \<Rightarrow> 'p option \<Rightarrow> found_dependency list" where
  "parse_yarn E lockfile_text manifest_path =
     (let manifest_deps = get_manifest_deps E manifest_path;
          yarn_version = (if startswith lockfile_text YARN1_PREFIX then 1 else 2 :: nat);
          parser = (if yarn_version = 1 then yarn1 else yarn2 (decimal_digit E));
          deps = safe_path_parse lockfile_text parser
      in case deps of
           None \<Rightarrow> []
         | Some ds \<Rightarrow>
             if ds = [] then [] else parse_yarn_loop E yarn_version manifest_deps ds)"

section \<open>Example inputs\<close>

text \<open>A small JSON value type and collaborators over it, for the concrete instances below;
  paths are not looked at (\<open>example_manifest\<close> is the parsed manifest behind every path), and
  the digit table holds \<^verbatim>\<open>0\<close> to \<^verbatim>\<open>9\<close>, the only decimal digits among the characters of the
  example texts.\<close>

datatype json = JString string | JObject "(string \<times> json) list"

definition example_manifest :: json where
  "example_manifest =
     JObject [(''name'', JString ''demo''),
              (''dependencies'', JObject [(''a'', JString ''^2.0.0'')])]"

definition example_collaborators :: "(unit, json) collaborators" where
  "example_collaborators =
     \<lparr> json_doc_parse = (\<lambda>_. Some example_manifest),
       as_dict = (\<lambda>j. case j of JObject kvs \<Rightarrow> kvs | JString _ \<Rightarrow> []),
       as_str = (\<lambda>j. case j of JString v \<Rightarrow> v | JObject _ \<Rightarrow> []),
       extract_npm_lockfile_hash = (\<lambda>_. Map.empty),
       decimal_digit = (\<lambda>c. c \<in> set ''0123456789'') \<rparr>"

text \<open>A version 1 lockfile with three blocks, at lines 4, 8 and 11; the second has no
  \<^verbatim>\<open>version\<close> field.\<close>

definition example_v1 :: string where
  "example_v1 =
     YARN1_PREFIX @
     ''a@^1.0.0, a@^2.0.0:\<newline>'' @
     ''  version \"1.2.3\"\<newline>'' @
     ''  resolved \"a#b#c\"\<newline>'' @
     ''\<newline>'' @
     ''b@1:\<newline>'' @
     ''  resolved \"u\"\<newline>'' @
     ''\<newline>'' @
     ''c@3:\<newline>'' @
     ''  version \"3\"\<newline>''"

definition example_v1_blocks :: "block list" where
  "example_v1_blocks =
     [(4, [(''a'', ''^1.0.0''), (''a'', ''^2.0.0'')],
          [''version'' \<mapsto> ''1.2.3'', ''resolved'' \<mapsto> ''a#b#c'']),
      (8, [(''b'', ''1'')], [''resolved'' \<mapsto> ''u'']),
      (11, [(''c'', ''3'')], [''version'' \<mapsto> ''3''])]"

text \<open>A version 2 lockfile with two blocks, at lines 4 and 8; the second has an empty
  \<^verbatim>\<open>checksum\<close>.\<close>

definition example_v2 :: string where
  "example_v2 =
     YARN2_PREFIX @
     ''\<newline>'' @
     ''\"a@npm:^1.0.0, a@file:../x\":\<newline>'' @
     ''  version: 1.2.3\<newline>'' @
     ''  checksum: abcd\<newline>'' @
     ''\<newline>'' @
     ''\"b@npm:1\":\<newline>'' @
     ''  version: 1\<newline>'' @
     ''  checksum: \"\"\<newline>''"

definition example_v2_blocks :: "block list" where
  "example_v2_blocks =
     [(4, [(''a'', ''^1.0.0''), (''a'', ''file:../x'')],
          [''version'' \<mapsto> ''1.2.3'', ''checksum'' \<mapsto> ''abcd'']),
      (8, [(''b'', ''1'')], [''version'' \<mapsto> ''1'', ''checksum'' \<mapsto> []])]"

text \<open>The same lockfile followed by a blank line and a header with no source, which ends the
  text.\<close>

definition sourceless_v2 :: string where
  "sourceless_v2 = example_v2 @ ''\<newline>'' @ ''\"\":\<newline>''"

definition sourceless_v2_blocks :: "block list" where
  "sourceless_v2_blocks = example_v2_blocks @ [(12, [], Map.empty)]"

text \<open>The version 1 lockfile followed by a blank line and a header with no source, which
  ends the text.\<close>

definition sourceless_v1 :: string where
  "sourceless_v1 = example_v1 @ ''\<newline>'' @ '':\<newline>''"

definition sourceless_v1_blocks :: "block list" where
  "sourceless_v1_blocks = example_v1_blocks @ [(14, [], Map.empty)]"

text \<open>A version 1 lockfile cut off inside a field line, and one without the exact banner.\<close>

definition truncated_v1 :: string where
  "truncated_v1 = YARN1_PREFIX @ ''a@1:\<newline>  version''"

definition unbannered_v1 :: string where
  "unbannered_v1 = ''# yarn lockfile v1\<newline>\<newline>a@1:\<newline>  version \"1\"\<newline>''"

text \<open>Collaborators whose manifest has no \<^verbatim>\<open>dependencies\<close> section, and whose manifest
  cannot be parsed.\<close>

definition no_deps_collaborators :: "(unit, json) collaborators" where
  "no_deps_collaborators =
     example_collaborators \<lparr> json_doc_parse := (\<lambda>_. Some (JObject [(''name'', JString ''demo'')])) \<rparr>"

definition unparsable_collaborators :: "(unit, json) collaborators" where
  "unparsable_collaborators = example_collaborators \<lparr> json_doc_parse := (\<lambda>_. None) \<rparr>"

text \<open>A parser stays within the text: started inside it, it ends at an index that is
  neither before its start nor after the end of the text.\<close>

definition within :: "'a parser \<Rightarrow> bool" where
  "within p \<longleftrightarrow> (\<forall>s i j a. i \<le> length s \<longrightarrow> p s i = Some (j, a) \<longrightarrow> i \<le> j \<and> j \<le> length s)"

text \<open>Items read one after the other from index \<open>i\<close>, as the pairs of the index where an
  item starts and the index where it ends: the first starts at \<open>i\<close>, each next one \<open>gap\<close>
  characters (the separator) after the end of the one before.\<close>

fun read_in_sequence :: "nat \<Rightarrow> nat \<Rightarrow> (nat \<times> nat) list \<Rightarrow> bool" where
  "read_in_sequence gap i [] = True"
| "read_in_sequence gap i ((a, b) # spans) = (a = i \<and> read_in_sequence gap (b + gap) spans)"

section \<open>Facts about the combinators\<close>

lemma bind_Some:
  "bind p f s i = Some r \<longleftrightarrow> (\<exists>j a. p s i = Some (j, a) \<and> f a s j = Some r)"
  by (auto simp: bind_def split: option.splits)

lemma success_Some: "success v s i = Some r \<longleftrightarrow> r = (i, v)"
  by (auto simp: success_def)

lemma map_p_Some:
  "map_p p f s i = Some r \<longleftrightarrow> (\<exists>j a. p s i = Some (j, a) \<and> r = (j, f a))"
  by (auto simp: map_p_def bind_Some success_Some)

lemma then_p_Some:
  "then_p p q s i = Some r \<longleftrightarrow> (\<exists>j a. p s i = Some (j, a) \<and> q s j = Some r)"
  by (simp add: then_p_def bind_Some)

lemma skip_p_Some:
  "skip_p p q s i = Some r \<longleftrightarrow>
     (\<exists>j a k b. p s i = Some (j, a) \<and> q s j = Some (k, b) \<and> r = (k, a))"
  by (auto simp: skip_p_def bind_Some success_Some)

lemma add_p_Some:
  "add_p p q s i = Some r \<longleftrightarrow>
     (\<exists>j a k b. p s i = Some (j, a) \<and> q s j = Some (k, b) \<and> r = (k, a @ b))"
  by (auto simp: add_p_def bind_Some success_Some)

lemma pair_Some:
  "pair p q s i = Some r \<longleftrightarrow>
     (\<exists>j a k b. p s i = Some (j, a) \<and> q s j = Some (k, b) \<and> r = (k, (a, b)))"
  by (auto simp: pair_def bind_Some success_Some)

lemma alt_p_Some:
  "alt_p p q s i = Some r \<longleftrightarrow> p s i = Some r \<or> (p s i = None \<and> q s i = Some r)"
  by (auto simp: alt_p_def split: option.splits)

lemma quoted_Some:
  "quoted p s i = Some r \<longleftrightarrow>
     (\<exists>j k a. string_p [CHR 0x22] s i = Some (j, [CHR 0x22]) \<and> p s j = Some (k, a) \<and>
        string_p [CHR 0x22] s k = Some (Suc k, [CHR 0x22]) \<and> r = (Suc k, a))"
  by (auto simp: quoted_def skip_p_Some then_p_Some string_p_def split: if_splits)

lemma mark_line_Some:
  "mark_line p s i = Some r \<longleftrightarrow>
     (\<exists>j a. p s i = Some (j, a) \<and> r = (j, (Suc (count_list (take i s) CHR ''\<newline>''), a)))"
  by (auto simp: mark_line_def bind_Some success_Some line_number_p_def)

lemma many_elems:
  "many p s i = Some (k, xs) \<Longrightarrow> x \<in> set xs \<Longrightarrow> \<exists>i' j'. p s i' = Some (j', x)"
proof (induction p s i arbitrary: k xs rule: many.induct)
  case (1 p s i)
  show ?case
  proof (cases "p s i")
    case None
    with "1.prems" show ?thesis by (simp add: many.simps[of p s i])
  next
    case (Some r)
    obtain j a where r: "r = (j, a)" by (cases r)
    from "1.prems"(1) Some r have ok: "i < j \<and> j \<le> length s"
      by (simp add: many.simps[of p s i] split: if_splits)
    from "1.prems"(1) Some r ok obtain k' as where
      rec: "many p s j = Some (k', as)" and xs: "xs = a # as"
      by (auto simp: many.simps[of p s i] split: option.splits)
    show ?thesis
    proof (cases "x = a")
      case True
      with Some r show ?thesis by blast
    next
      case False
      with xs "1.prems"(2) have "x \<in> set as" by simp
      from "1.IH"[OF Some r[symmetric] ok rec this] show ?thesis .
    qed
  qed
qed

lemma sep_by_elems:
  assumes "sep_by p sep s i = Some (k, xs)" and "x \<in> set xs"
  shows "\<exists>i' j'. p s i' = Some (j', x)"
proof -
  from assms(1) consider
    (some) j a k' b where "p s i = Some (j, a)" "many (then_p sep p) s j = Some (k', b)" "xs = [a] @ b"
    | (none) "xs = []"
    by (auto simp: sep_by_def alt_p_Some add_p_Some map_p_Some success_Some)
  then show ?thesis
  proof cases
    case some
    show ?thesis
    proof (cases "x = a")
      case True with some show ?thesis by blast
    next
      case False
      with some assms(2) have "x \<in> set b" by simp
      from many_elems[OF some(2) this] show ?thesis
        by (auto simp: then_p_Some)
    qed
  next
    case none with assms(2) show ?thesis by simp
  qed
qed

section \<open>Facts about the string helpers\<close>

lemma split_not_Nil: "split s c \<noteq> []"
  by (induction s) (auto split: list.splits)

lemma split_no_sep: "c \<notin> set s \<Longrightarrow> split s c = [s]"
  by (induction s) auto

lemma split_append_sep: "split (a @ c # b) c = split a c @ split b c"
  by (induction a) (auto split: list.splits simp: split_not_Nil)

lemma join_split: "join [c] (split s c) = s"
proof (induction s)
  case Nil show ?case by simp
next
  case (Cons x xs)
  obtain w ws where sp: "split xs c = w # ws"
    using split_not_Nil[of xs c] by (cases "split xs c") auto
  with Cons show ?case by (cases ws) auto
qed

lemma rto_before_last:
  assumes "CHR ''#'' \<notin> set b"
  shows "remove_trailing_octothorpe (Some (a @ ''#'' @ b)) = Some a"
proof -
  have "butlast (split (a @ CHR ''#'' # b) CHR ''#'') = split a CHR ''#''"
    using assms by (simp add: split_append_sep split_no_sep)
  then show ?thesis
    by (simp add: remove_trailing_octothorpe_def join_split)
qed

section \<open>Evaluating the example inputs\<close>

lemmas combinator_defs = success_def bind_def map_p_def then_p_def skip_p_def add_p_def alt_p_def
  string_p_def any_char_def peek_def optional_def optional_None_def sep_by_def parse_def
  not_any_def upto_def consume_line_def quoted_def pair_def line_number_p_def mark_line_def
  strip_def many.simps
lemmas grammar_defs = source1_def multi_source1_def key_value1_def fields_of_def yarn_dep1_def
  yarn1_def source2_def multi_source2_def key_value2_def yarn_dep2_def yarn2_def
  remove_npm_prefix_def startswith_def digits_def YARN2_METADATA_REGEX_def
  YARN1_PREFIX_def YARN2_PREFIX_def

lemma example_v1_parse: "safe_path_parse example_v1 yarn1 = Some example_v1_blocks"
  by (simp add: example_v1_def example_v1_blocks_def safe_path_parse_def
        combinator_defs grammar_defs)

lemma example_v2_parse:
  "safe_path_parse example_v2 (yarn2 (decimal_digit example_collaborators))
     = Some example_v2_blocks"
  by (simp add: example_v2_def example_v2_blocks_def safe_path_parse_def
        example_collaborators_def combinator_defs grammar_defs)

lemma sourceless_v2_parse:
  "safe_path_parse sourceless_v2 (yarn2 (decimal_digit example_collaborators))
     = Some sourceless_v2_blocks"
  by (simp add: sourceless_v2_def sourceless_v2_blocks_def example_v2_def
        example_v2_blocks_def safe_path_parse_def example_collaborators_def
        combinator_defs grammar_defs)

lemma example_v1_banner: "startswith example_v1 YARN1_PREFIX"
  by (simp add: example_v1_def startswith_def)

lemma example_v2_banner: "\<not> startswith example_v2 YARN1_PREFIX"
  by (simp add: example_v2_def startswith_def YARN1_PREFIX_def YARN2_PREFIX_def)

lemma sourceless_v1_parse: "safe_path_parse sourceless_v1 yarn1 = Some sourceless_v1_blocks"
  by (simp add: sourceless_v1_def sourceless_v1_blocks_def example_v1_def
        example_v1_blocks_def safe_path_parse_def combinator_defs grammar_defs)

lemma sourceless_v1_banner: "startswith sourceless_v1 YARN1_PREFIX"
  by (simp add: sourceless_v1_def example_v1_def startswith_def)

lemma sourceless_v2_banner: "\<not> startswith sourceless_v2 YARN1_PREFIX"
  by (simp add: sourceless_v2_def example_v2_def startswith_def YARN1_PREFIX_def
        YARN2_PREFIX_def)

section \<open>Facts about record assembly\<close>

lemma parse_yarn_unfold:
  "parse_yarn E text mp =
     (case safe_path_parse text (if startswith text YARN1_PREFIX then yarn1 else yarn2 (decimal_digit E)) of
        None \<Rightarrow> []
      | Some ds \<Rightarrow>
          parse_yarn_loop E (if startswith text YARN1_PREFIX then 1 else 2)
            (get_manifest_deps E mp) ds)"
  by (cases "safe_path_parse text (if startswith text YARN1_PREFIX then yarn1 else yarn2 (decimal_digit E))")
     (auto simp: parse_yarn_def Let_def)

lemma loop_resolved:
  "list_all2 (\<lambda>r (ln, sources, fields').
        resolved_url r = remove_trailing_octothorpe (fields' ''resolved''))
     (parse_yarn_loop E v md deps)
     (filter (\<lambda>(ln, sources, fields'). sources \<noteq> [] \<and> fields' ''version'' \<noteq> None) deps)"
  by (induction E v md deps rule: parse_yarn_loop.induct)
     (auto split: list.splits option.splits simp: Let_def)

lemma loop_transitivity:
  "list_all2 (\<lambda>r (ln, sources, fields').
        transitivity r = transitivity_of md sources)
     (parse_yarn_loop E v md deps)
     (filter (\<lambda>(ln, sources, fields'). sources \<noteq> [] \<and> fields' ''version'' \<noteq> None) deps)"
  by (induction E v md deps rule: parse_yarn_loop.induct)
     (auto split: list.splits option.splits simp: Let_def)

lemma loop_checksum:
  "v \<noteq> 1 \<Longrightarrow> list_all2 (\<lambda>r (ln, sources, fields').
        allowed_hashes r = (case fields' ''checksum'' of None \<Rightarrow> Map.empty
           | Some c \<Rightarrow> if c \<noteq> [] then [''sha512'' \<mapsto> [c]] else Map.empty))
     (parse_yarn_loop E v md deps)
     (filter (\<lambda>(ln, sources, fields'). sources \<noteq> [] \<and> fields' ''version'' \<noteq> None) deps)"
  by (induction E v md deps rule: parse_yarn_loop.induct)
     (auto split: list.splits option.splits simp: Let_def)

lemma yarn_dep1_line:
  "yarn_dep1 text i = Some (j, ln, b) \<Longrightarrow> ln = Suc (count_list (take i text) CHR ''\<newline>'')"
  by (auto simp: yarn_dep1_def mark_line_Some)

lemma yarn_dep2_line:
  "yarn_dep2 text i = Some (j, ln, b) \<Longrightarrow> ln = Suc (count_list (take i text) CHR ''\<newline>'')"
  by (auto simp: yarn_dep2_def mark_line_Some)

lemma yarn2_needs_banner: "\<not> startswith text YARN2_PREFIX \<Longrightarrow> parse (yarn2 decimal) text = None"
  by (simp add: parse_def yarn2_def skip_p_def then_p_def bind_def string_p_def startswith_def)

lemma truncated_v1_parse: "safe_path_parse truncated_v1 yarn1 = None"
  by (simp add: truncated_v1_def safe_path_parse_def combinator_defs grammar_defs)

lemma truncated_v1_banner: "startswith truncated_v1 YARN1_PREFIX"
  by (simp add: truncated_v1_def startswith_def)

lemma unbannered_v1_banner:
  "\<not> startswith unbannered_v1 YARN1_PREFIX \<and> \<not> startswith unbannered_v1 YARN2_PREFIX"
  by (simp add: unbannered_v1_def startswith_def YARN1_PREFIX_def YARN2_PREFIX_def)

lemma remove_npm_prefix_npm: "remove_npm_prefix (''npm:'' @ c) = c"
  by (simp add: remove_npm_prefix_def startswith_def)

lemma remove_npm_prefix_other: "\<not> startswith raw ''npm:'' \<Longrightarrow> remove_npm_prefix raw = raw"
  by (simp add: remove_npm_prefix_def)

lemma get_manifest_deps_None: "get_manifest_deps E None = None"
  by (simp add: get_manifest_deps_def)

section \<open>Every repetition step of the grammars moves forward\<close>

lemma withinD: "within p \<Longrightarrow> i \<le> length s \<Longrightarrow> p s i = Some (j, a) \<Longrightarrow> i \<le> j \<and> j \<le> length s"
  unfolding within_def by blast

lemma within_success: "within (success v)"
  by (simp add: within_def success_def)


lemma within_bind:
  assumes "within p" and "\<And>a. within (f a)"
  shows "within (bind p f)"
  unfolding within_def
proof (intro allI impI)
  fix s i k b
  assume i: "i \<le> length s" and r: "bind p f s i = Some (k, b)"
  from r obtain j a where p: "p s i = Some (j, a)" and f: "f a s j = Some (k, b)"
    by (auto simp: bind_Some)
  from withinD[OF assms(1) i p] have j: "i \<le> j \<and> j \<le> length s" .
  with withinD[OF assms(2) _ f] show "i \<le> k \<and> k \<le> length s" by auto
qed

lemma within_map_p: "within p \<Longrightarrow> within (map_p p f)"
  unfolding map_p_def by (intro within_bind within_success)

lemma within_then_p: "within p \<Longrightarrow> within q \<Longrightarrow> within (then_p p q)"
  unfolding then_p_def by (intro within_bind)

lemma within_skip_p: "within p \<Longrightarrow> within q \<Longrightarrow> within (skip_p p q)"
  unfolding skip_p_def by (intro within_bind within_success)

lemma within_add_p: "within p \<Longrightarrow> within q \<Longrightarrow> within (add_p p q)"
  unfolding add_p_def by (intro within_bind within_success)

lemma within_pair: "within p \<Longrightarrow> within q \<Longrightarrow> within (pair p q)"
  unfolding pair_def by (intro within_bind within_success)

lemma withinI:
  assumes "\<And>s i j a. i \<le> length s \<Longrightarrow> p s i = Some (j, a) \<Longrightarrow> i \<le> j \<and> j \<le> length s"
  shows "within p"
  unfolding within_def using assms by blast

lemma within_alt_p:
  assumes "within p" and "within q"
  shows "within (alt_p p q)"
proof (rule withinI)
  fix s i j a
  assume i: "i \<le> length s" and r: "alt_p p q s i = Some (j, a)"
  from r have "p s i = Some (j, a) \<or> q s i = Some (j, a)" by (auto simp: alt_p_Some)
  then show "i \<le> j \<and> j \<le> length s"
    using withinD[OF assms(1) i] withinD[OF assms(2) i] by blast
qed

lemma within_optional:
  assumes "within p"
  shows "within (optional p d)"
proof (rule withinI)
  fix s i j a
  assume i: "i \<le> length s" and r: "optional p d s i = Some (j, a)"
  show "i \<le> j \<and> j \<le> length s"
  proof (cases "p s i")
    case None
    with r i show ?thesis by (simp add: optional_def)
  next
    case (Some x)
    with r have "p s i = Some (j, a)" by (simp add: optional_def)
    from withinD[OF assms i this] show ?thesis .
  qed
qed

lemma within_optional_None:
  assumes "within p"
  shows "within (optional_None p)"
proof (rule withinI)
  fix s i j a
  assume i: "i \<le> length s" and r: "optional_None p s i = Some (j, a)"
  show "i \<le> j \<and> j \<le> length s"
  proof (cases "p s i")
    case None
    with r i show ?thesis by (simp add: optional_None_def)
  next
    case (Some x)
    with r obtain b where "p s i = Some (j, b)"
      by (cases x) (simp add: optional_None_def)
    from withinD[OF assms i this] show ?thesis .
  qed
qed

lemma string_p_length:
  assumes "string_p lit s i = Some (j, a)"
  shows "j = i + length lit \<and> length lit \<le> length s - i"
proof -
  from assms have eq: "take (length lit) (drop i s) = lit" and j: "j = i + length lit"
    by (auto simp: string_p_def split: if_splits)
  have "length (take (length lit) (drop i s)) \<le> length s - i" by simp
  with eq j show ?thesis by simp
qed

lemma many_step_string:
  assumes "string_p lit s i = Some (j, a)" and "lit \<noteq> []"
  shows "i < j \<and> j \<le> length s"
  using string_p_length[OF assms(1)] assms(2) by (cases lit) auto

lemma within_string_p: "within (string_p lit)"
proof (rule withinI)
  fix s i j a
  assume i: "i \<le> length s" and r: "string_p lit s i = Some (j, a)"
  from string_p_length[OF r] i show "i \<le> j \<and> j \<le> length s" by auto
qed

lemma within_any_char: "within any_char"
  by (rule withinI) (auto simp: any_char_def split: if_splits)

lemma within_peek: "within (peek p)"
  by (rule withinI) (auto simp: peek_def split: option.splits)

lemma within_not_any: "within (not_any chars)"
proof -
  have le: "length (takeWhile P (drop i s)) \<le> length s - i" for P and s :: string and i
    using length_takeWhile_le[of P "drop i s"] by simp
  show ?thesis
    unfolding within_def not_any_def Let_def
  proof (intro allI impI)
    fix s :: string and i j a
    assume i: "i \<le> length s"
      and r: "(if takeWhile (\<lambda>c. c \<notin> set chars) (drop i s) = [] then None
           else Some (i + length (takeWhile (\<lambda>c. c \<notin> set chars) (drop i s)),
                  takeWhile (\<lambda>c. c \<notin> set chars) (drop i s))) = Some (j, a)"
    then have "j = i + length (takeWhile (\<lambda>c. c \<notin> set chars) (drop i s))"
      by (auto split: if_splits)
    with le[of "\<lambda>c. c \<notin> set chars" i s] i show "i \<le> j \<and> j \<le> length s" by simp
  qed
qed

lemma within_upto: "within (upto chars c)"
  unfolding upto_def by (simp add: within_skip_p within_not_any within_any_char)

lemma within_consume_line: "within consume_line"
  unfolding consume_line_def by (intro within_bind within_not_any within_success)

lemma within_quoted: "within p \<Longrightarrow> within (quoted p)"
  unfolding quoted_def by (intro within_skip_p within_then_p within_string_p)

lemma within_mark_line:
  assumes "within p"
  shows "within (mark_line p)"
proof (rule withinI)
  fix s i j a
  assume i: "i \<le> length s" and r: "mark_line p s i = Some (j, a)"
  from r obtain b where "p s i = Some (j, b)" by (auto simp: mark_line_Some)
  from withinD[OF assms i this] show "i \<le> j \<and> j \<le> length s" .
qed

lemma many_bounds: "many p s i = Some (k, xs) \<Longrightarrow> i \<le> k \<and> k \<le> length s \<or> (k = i \<and> xs = [])"
proof (induction p s i arbitrary: k xs rule: many.induct)
  case (1 p s i)
  show ?case
  proof (cases "p s i")
    case None
    with "1.prems" show ?thesis by (simp add: many.simps[of p s i])
  next
    case (Some r)
    obtain j a where r: "r = (j, a)" by (cases r)
    from "1.prems" Some r have ok: "i < j \<and> j \<le> length s"
      by (simp add: many.simps[of p s i] split: if_splits)
    from "1.prems" Some r ok obtain as where rec: "many p s j = Some (k, as)"
      by (auto simp: many.simps[of p s i] split: option.splits)
    from "1.IH"[OF Some r[symmetric] ok rec] ok show ?thesis by auto
  qed
qed

lemma within_many: "within (many p)"
proof (rule withinI)
  fix s i j a
  assume i: "i \<le> length s" and r: "many p s i = Some (j, a)"
  from many_bounds[OF r] i show "i \<le> j \<and> j \<le> length s" by auto
qed

lemma within_sep_by: "within p \<Longrightarrow> within (sep_by p sep)"
  unfolding sep_by_def
  by (intro within_alt_p within_add_p within_map_p within_many within_success)

text \<open>When every successful step of \<open>p\<close> moves forward inside the text, \<open>many p\<close> returns a
  list: neither of the two \<open>None\<close> branches of the recursion is taken.\<close>

lemma many_returns:
  assumes "\<And>i j a. p s i = Some (j, a) \<Longrightarrow> i < j \<and> j \<le> length s"
  shows "\<exists>k xs. many p s i = Some (k, xs)"
  using assms
proof (induction p s i rule: many.induct)
  case (1 p s i)
  show ?case
  proof (cases "p s i")
    case None
    then show ?thesis by (simp add: many.simps[of p s i])
  next
    case (Some r)
    obtain j a where r: "r = (j, a)" by (cases r)
    from "1.prems" Some r have ok: "i < j \<and> j \<le> length s" by blast
    have "\<exists>k xs. many p s j = Some (k, xs)"
      by (rule "1.IH"[OF Some r[symmetric] ok]) (rule "1.prems")
    then obtain k xs where "many p s j = Some (k, xs)" by blast
    with Some r ok show ?thesis by (simp add: many.simps[of p s i])
  qed
qed

lemma sep_step_forward:
  assumes "within p" and "lit \<noteq> []" and "then_p (string_p lit) p s i = Some (j, a)"
  shows "i < j \<and> j \<le> length s"
proof -
  from assms(3) obtain m l where a: "string_p lit s i = Some (m, l)" and b: "p s m = Some (j, a)"
    by (auto simp: then_p_Some)
  from many_step_string[OF a assms(2)] have "i < m \<and> m \<le> length s" .
  with withinD[OF assms(1) _ b] show ?thesis by auto
qed

lemma source1_bounds: "within (source1 q)"
  unfolding source1_def
  by (intro within_pair within_add_p within_optional within_string_p within_upto)

lemma source2_bounds: "within source2"
  unfolding source2_def
  by (intro within_pair within_add_p within_optional within_string_p within_upto within_map_p)

lemma within_if: "within p \<Longrightarrow> within q \<Longrightarrow> within (if c then p else q)"
  by simp

lemma key_value1_bounds: "within key_value1"
  unfolding key_value1_def
  by (intro within_bind within_many within_if within_consume_line within_upto within_peek
        within_then_p within_string_p within_success)

lemma key_value2_bounds: "within key_value2"
  unfolding key_value2_def
  by (intro within_bind within_many within_if within_consume_line within_upto within_peek
        within_then_p within_string_p within_success)

lemma yarn_dep1_bounds: "within yarn_dep1"
  unfolding yarn_dep1_def multi_source1_def
  by (intro within_mark_line within_pair within_skip_p within_sep_by within_alt_p within_quoted
        source1_bounds within_string_p within_map_p key_value1_bounds)

lemma yarn_dep2_bounds: "within yarn_dep2"
  unfolding yarn_dep2_def multi_source2_def
  by (intro within_mark_line within_pair within_skip_p within_sep_by within_quoted
        source2_bounds within_string_p within_map_p key_value2_bounds)

text \<open>The five repetitions of the grammars: indentation, source lists, field lines and
  blocks.\<close>

lemma grammar_repetitions_return:
  "(\<exists>k xs. many (string_p '' '') s i = Some (k, xs))
   \<and> (\<exists>k xs. many (then_p (string_p '', '') (alt_p (quoted (source1 True)) (source1 False))) s i
              = Some (k, xs))
   \<and> (\<exists>k xs. many (then_p (string_p '', '') source2) s i = Some (k, xs))
   \<and> (\<exists>k xs. many (then_p (string_p ''\<newline>'') key_value1) s i = Some (k, xs))
   \<and> (\<exists>k xs. many (then_p (string_p ''\<newline>'') key_value2) s i = Some (k, xs))
   \<and> (\<exists>k xs. many (then_p (string_p ''\<newline>\<newline>'') yarn_dep1) s i = Some (k, xs))
   \<and> (\<exists>k xs. many (then_p (string_p ''\<newline>\<newline>'') yarn_dep2) s i = Some (k, xs))"
proof (intro conjI)
  show "\<exists>k xs. many (string_p '' '') s i = Some (k, xs)"
    by (rule many_returns) (rule many_step_string, assumption, simp)
  show "\<exists>k xs. many (then_p (string_p '', '') (alt_p (quoted (source1 True)) (source1 False))) s i
              = Some (k, xs)"
    by (rule many_returns, rule sep_step_forward[rotated 2], assumption)
       (intro within_alt_p within_quoted source1_bounds, simp)
  show "\<exists>k xs. many (then_p (string_p '', '') source2) s i = Some (k, xs)"
    by (rule many_returns, rule sep_step_forward[rotated 2], assumption)
       (rule source2_bounds, simp)
  show "\<exists>k xs. many (then_p (string_p ''\<newline>'') key_value1) s i = Some (k, xs)"
    by (rule many_returns, rule sep_step_forward[rotated 2], assumption)
       (rule key_value1_bounds, simp)
  show "\<exists>k xs. many (then_p (string_p ''\<newline>'') key_value2) s i = Some (k, xs)"
    by (rule many_returns, rule sep_step_forward[rotated 2], assumption)
       (rule key_value2_bounds, simp)
  show "\<exists>k xs. many (then_p (string_p ''\<newline>\<newline>'') yarn_dep1) s i = Some (k, xs)"
    by (rule many_returns, rule sep_step_forward[rotated 2], assumption)
       (rule yarn_dep1_bounds, simp)
  show "\<exists>k xs. many (then_p (string_p ''\<newline>\<newline>'') yarn_dep2) s i = Some (k, xs)"
    by (rule many_returns, rule sep_step_forward[rotated 2], assumption)
       (rule yarn_dep2_bounds, simp)
qed

section \<open>Running the field grammars on a line\<close>

lemma drop_after: "drop i s = a @ b \<Longrightarrow> drop (i + length a) s = b"
  by (metis add.commute append_eq_conv_conj drop_drop)

lemma string_p_at: "drop i s = lit @ rest \<Longrightarrow> string_p lit s i = Some (i + length lit, lit)"
  by (simp add: string_p_def)

lemma any_char_at:
  assumes "drop i s = c # rest"
  shows "any_char s i = Some (Suc i, c)"
proof -
  from assms have i: "i < length s" by (cases "i < length s") auto
  from hd_drop_conv_nth[OF i] assms have "s ! i = c" by simp
  with i show ?thesis by (simp add: any_char_def)
qed

lemma not_any_run:
  assumes "drop i s = run @ rest" and "run \<noteq> []" and "\<forall>c \<in> set run. c \<notin> set chars"
    and "rest = [] \<or> hd rest \<in> set chars"
  shows "not_any chars s i = Some (i + length run, run)"
proof -
  have "takeWhile (\<lambda>c. c \<notin> set chars) rest = []"
    using assms(4) by (cases rest) auto
  with assms(3) have "takeWhile (\<lambda>c. c \<notin> set chars) (run @ rest) = run"
    by simp
  with assms(1,2) show ?thesis by (simp add: not_any_def)
qed

lemma many_spaces:
  assumes "drop i s = replicate n CHR '' '' @ body" and "body = [] \<or> hd body \<noteq> CHR '' ''"
  shows "many (string_p '' '') s i = Some (i + n, replicate n '' '')"
  using assms
proof (induction n arbitrary: i)
  case 0
  then have "string_p '' '' s i = None"
    by (cases body) (auto simp: string_p_def)
  then show ?case by (simp add: many.simps[of _ s i])
next
  case (Suc n)
  from Suc.prems(1) have d: "drop i s = '' '' @ (replicate n CHR '' '' @ body)" by simp
  from string_p_at[OF d] have sp: "string_p '' '' s i = Some (Suc i, '' '')" by simp
  from d have i: "i < length s" by (cases "i < length s") auto
  from drop_after[OF d] have "drop (Suc i) s = replicate n CHR '' '' @ body" by simp
  from Suc.IH[OF this Suc.prems(2)] sp i show ?case
    by (simp add: many.simps[of _ s i])
qed

lemma other_indentation:
  assumes d: "drop i s = replicate n CHR '' '' @ body @ rest"
    and n: "n \<noteq> 2" and b: "body \<noteq> []" "hd body \<noteq> CHR '' ''" "CHR ''\<newline>'' \<notin> set body"
    and r: "rest = [] \<or> hd rest = CHR ''\<newline>''"
  shows "key_value1 s i = Some (i + n + length body, None)"
    and "key_value2 s i = Some (i + n + length body, None)"
proof -
  from b have "body @ rest = [] \<or> hd (body @ rest) \<noteq> CHR '' ''" by simp
  from many_spaces[OF d this] have m: "many (string_p '' '') s i = Some (i + n, replicate n '' '')" .
  from drop_after[OF d] have "drop (i + n) s = body @ rest" by simp
  from not_any_run[OF this b(1), of "[CHR ''\<newline>'']"] b(3) r
  have c: "not_any [CHR ''\<newline>''] s (i + n) = Some (i + n + length body, body)" by auto
  then have "consume_line s (i + n) = Some (i + n + length body, None)"
    by (simp add: consume_line_def bind_def success_def)
  with m n show "key_value1 s i = Some (i + n + length body, None)"
    and "key_value2 s i = Some (i + n + length body, None)"
    by (simp_all add: key_value1_def key_value2_def bind_def)
qed

lemma key_value1_field:
  assumes d: "drop i s = ''  '' @ key @ '' '' @ value @ rest"
    and k: "key \<noteq> []" "CHR '' '' \<notin> set key" "CHR '':'' \<notin> set key"
      "CHR ''\<newline>'' \<notin> set key"
    and v: "value \<noteq> []" "CHR ''\<newline>'' \<notin> set value"
    and r: "rest = [] \<or> hd rest = CHR ''\<newline>''"
  shows "key_value1 s i = Some (i + 3 + length key + length value, Some (key, strip value [CHR 0x22]))"
proof -
  let ?tail = "key @ '' '' @ value @ rest"
  from d have d0: "drop i s = replicate 2 CHR '' '' @ ?tail"
    by (simp add: numeral_2_eq_2)
  from k have "?tail = [] \<or> hd ?tail \<noteq> CHR '' ''" by (cases key) auto
  from many_spaces[OF d0 this]
  have m: "many (string_p '' '') s i = Some (i + 2, replicate 2 '' '')" .
  from drop_after[OF d0] have d1: "drop (i + 2) s = key @ ('' '' @ value @ rest)" by (simp add: eval_nat_numeral)
  from not_any_run[OF d1 k(1), of "'' :'' @ [CHR ''\<newline>'']"] k(2,3,4)
  have u: "upto '' :'' False s (i + 2) = Some (i + 2 + length key, key)"
    by (auto simp: upto_def)
  from drop_after[OF d1] have d2: "drop (i + 2 + length key) s = CHR '' '' # (value @ rest)" by (simp add: eval_nat_numeral)
  from any_char_at[OF d2]
  have p: "peek any_char s (i + 2 + length key) = Some (i + 2 + length key, CHR '' '')"
    by (simp add: peek_def)
  from d2 have d2': "drop (i + 2 + length key) s = '' '' @ (value @ rest)" by simp
  from string_p_at[OF d2']
  have sp: "string_p '' '' s (i + 2 + length key) = Some (i + 3 + length key, '' '')" by simp
  from drop_after[OF d2'] have d3: "drop (i + 3 + length key) s = value @ rest" by (simp add: eval_nat_numeral)
  from not_any_run[OF d3 v(1), of "[CHR ''\<newline>''] @ [CHR ''\<newline>'']"] v(2) r
  have w: "upto [CHR ''\<newline>''] False s (i + 3 + length key)
             = Some (i + 3 + length key + length value, value)"
    by (auto simp: upto_def)
  from m u p sp w show ?thesis
    by (simp add: key_value1_def bind_def then_p_def success_def)
qed

lemma key_value2_field:
  assumes d: "drop i s = ''  '' @ key @ '': '' @ value @ rest"
    and k: "key \<noteq> []" "hd key \<noteq> CHR '' ''" "CHR '':'' \<notin> set key"
      "CHR ''\<newline>'' \<notin> set key"
    and v: "value \<noteq> []" "CHR ''\<newline>'' \<notin> set value"
    and r: "rest = [] \<or> hd rest = CHR ''\<newline>''"
  shows "key_value2 s i = Some (i + 4 + length key + length value, Some (key, strip value [CHR 0x22]))"
proof -
  let ?tail = "key @ '': '' @ value @ rest"
  from d have d0: "drop i s = replicate 2 CHR '' '' @ ?tail"
    by (simp add: numeral_2_eq_2)
  from k have "?tail = [] \<or> hd ?tail \<noteq> CHR '' ''" by (cases key) auto
  from many_spaces[OF d0 this]
  have m: "many (string_p '' '') s i = Some (i + 2, replicate 2 '' '')" .
  from drop_after[OF d0] have d1: "drop (i + 2) s = key @ ('': '' @ value @ rest)" by (simp add: eval_nat_numeral)
  from not_any_run[OF d1 k(1), of "'':'' @ [CHR ''\<newline>'']"] k(3,4)
  have u: "upto '':'' False s (i + 2) = Some (i + 2 + length key, key)"
    by (auto simp: upto_def)
  from drop_after[OF d1] have d2: "drop (i + 2 + length key) s = '':'' @ ('' '' @ value @ rest)"
    by (simp add: eval_nat_numeral)
  from string_p_at[OF d2]
  have c: "string_p '':'' s (i + 2 + length key) = Some (i + 3 + length key, '':'')" by simp
  from drop_after[OF d2] have d3: "drop (i + 3 + length key) s = CHR '' '' # (value @ rest)"
    by (simp add: eval_nat_numeral)
  from any_char_at[OF d3]
  have p: "peek any_char s (i + 3 + length key) = Some (i + 3 + length key, CHR '' '')"
    by (simp add: peek_def)
  from d3 have d3': "drop (i + 3 + length key) s = '' '' @ (value @ rest)" by simp
  from string_p_at[OF d3']
  have sp: "string_p '' '' s (i + 3 + length key) = Some (i + 4 + length key, '' '')" by simp
  from drop_after[OF d3'] have d4: "drop (i + 4 + length key) s = value @ rest" by (simp add: eval_nat_numeral)
  from not_any_run[OF d4 v(1), of "[CHR ''\<newline>''] @ [CHR ''\<newline>'']"] v(2) r
  have w: "upto [CHR ''\<newline>''] False s (i + 4 + length key)
             = Some (i + 4 + length key + length value, value)"
    by (auto simp: upto_def)
  from m u c p sp w show ?thesis
    by (simp add: key_value2_def bind_def then_p_def success_def)
qed

lemma dropWhile_quotes:
  "xs = [] \<or> hd xs \<noteq> q \<Longrightarrow> dropWhile (\<lambda>c. c \<in> set [q]) (replicate m q @ xs) = xs"
proof (induction m)
  case 0
  then show ?case by (cases xs) auto
next
  case (Suc m)
  then show ?case by simp
qed

lemma strip_all_quotes:
  assumes "v = [] \<or> (hd v \<noteq> q \<and> last v \<noteq> q)"
  shows "strip (replicate m q @ v @ replicate k q) [q] = v"
proof (cases "v = []")
  case True
  have "replicate m q @ replicate k q = replicate (m + k) q @ []"
    by (simp add: replicate_add)
  with True dropWhile_quotes[of "[]" q "m + k"] show ?thesis
    by (simp add: strip_def)
next
  case False
  with assms have h: "hd v \<noteq> q" and l: "last v \<noteq> q" by auto
  from False h have "v @ replicate k q = [] \<or> hd (v @ replicate k q) \<noteq> q" by simp
  from dropWhile_quotes[OF this, of m]
  have a: "dropWhile (\<lambda>c. c \<in> set [q]) (replicate m q @ v @ replicate k q) = v @ replicate k q" .
  from False l have "rev v = [] \<or> hd (rev v) \<noteq> q" by (simp add: hd_rev)
  from dropWhile_quotes[OF this, of k]
  have b: "dropWhile (\<lambda>c. c \<in> set [q]) (rev (v @ replicate k q)) = rev v" by simp
  from a b show ?thesis by (simp add: strip_def)
qed

lemma sep_by_no_item: "p s i = None \<Longrightarrow> sep_by p sep s i = Some (i, [])"
  by (simp add: sep_by_def alt_p_def add_p_def map_p_def bind_def success_def)

section \<open>What a successful scan says about the text\<close>

lemma string_p_text:
  assumes "string_p lit s i = Some (j, v)"
  shows "v = lit \<and> j = i + length lit \<and> (\<exists>rest. drop i s = lit @ rest)"
proof -
  from assms have eq: "take (length lit) (drop i s) = lit" and v: "v = lit" "j = i + length lit"
    by (auto simp: string_p_def split: if_splits)
  have "take (length lit) (drop i s) @ drop (length lit) (drop i s) = drop i s"
    by (rule append_take_drop_id)
  with eq have "drop i s = lit @ drop (length lit) (drop i s)" by simp
  with v show ?thesis by blast
qed

lemma any_char_text:
  assumes "any_char s i = Some (j, d)"
  shows "j = Suc i \<and> (\<exists>rest. drop i s = d # rest)"
proof -
  from assms have i: "i < length s" and j: "j = Suc i" and d: "d = s ! i"
    by (auto simp: any_char_def split: if_splits)
  from i d have "drop i s = d # drop (Suc i) s" by (simp add: Cons_nth_drop_Suc)
  with j show ?thesis by blast
qed

lemma not_any_text:
  assumes "not_any chars s i = Some (j, run)"
  shows "run \<noteq> [] \<and> j = i + length run \<and> (\<forall>c \<in> set run. c \<notin> set chars)
         \<and> (\<exists>rest. drop i s = run @ rest \<and> (rest = [] \<or> hd rest \<in> set chars))"
proof -
  let ?P = "\<lambda>c. c \<notin> set chars"
  from assms have run: "run = takeWhile ?P (drop i s)" and ne: "run \<noteq> []"
    and j: "j = i + length run"
    by (auto simp: not_any_def Let_def split: if_splits)
  have a: "\<forall>c \<in> set run. c \<notin> set chars"
    unfolding run by (auto dest: set_takeWhileD)
  have b: "drop i s = run @ dropWhile ?P (drop i s)" unfolding run by simp
  have c: "dropWhile ?P (drop i s) = [] \<or> hd (dropWhile ?P (drop i s)) \<in> set chars"
    using hd_dropWhile[of ?P "drop i s"] by blast
  from ne j a b c show ?thesis by blast
qed

lemma drop_join: "drop i s = a @ r \<Longrightarrow> drop (i + length a) s = b @ r' \<Longrightarrow> drop i s = a @ b @ r'"
  using drop_after[of i s a r] by simp

section \<open>Where the items of a separated list are read\<close>

lemma many_then_positions:
  assumes "within p" and "lit \<noteq> []"
  shows "j \<le> length s \<Longrightarrow> many (then_p (string_p lit) p) s j = Some (k, xs) \<Longrightarrow>
         \<exists>starts. list_all2 (\<lambda>a x. \<exists>b. p s a = Some (b, x)) starts xs
                  \<and> sorted_wrt (\<lambda>a b. a + length lit \<le> b) starts
                  \<and> (\<forall>a \<in> set starts. j + length lit \<le> a \<and> a \<le> length s
                        \<and> take (length lit) (drop (a - length lit) s) = lit)"
proof (induction "then_p (string_p lit) p" s j arbitrary: k xs rule: many.induct)
  case (1 s j)
  let ?q = "then_p (string_p lit) p"
  show ?case
  proof (cases "?q s j")
    case None
    with "1.prems"(2) have "xs = []" by (simp add: many.simps[of ?q s j])
    then show ?thesis by simp
  next
    case (Some r)
    obtain j' x where r: "r = (j', x)" by (cases r)
    from "1.prems"(2) Some r have ok: "j < j' \<and> j' \<le> length s"
      by (simp add: many.simps[of ?q s j] split: if_splits)
    from "1.prems"(2) Some r ok obtain ys where rec: "many ?q s j' = Some (k, ys)"
      and xs: "xs = x # ys"
      by (auto simp: many.simps[of ?q s j] split: option.splits)
    from Some r obtain m l where sp: "string_p lit s j = Some (m, l)" and px: "p s m = Some (j', x)"
      by (auto simp: then_p_Some)
    from string_p_text[OF sp] obtain rest where m: "m = j + length lit" and d: "drop j s = lit @ rest"
      by blast
    from many_step_string[OF sp assms(2)] have ml: "m \<le> length s" by simp
    from withinD[OF assms(1) ml px] have mj: "m \<le> j'" by simp
    from d m have before: "take (length lit) (drop (m - length lit) s) = lit" by simp
    from ok have "j' \<le> length s" by simp
    from "1.hyps"[OF Some r[symmetric] ok this rec] obtain starts where
      st: "list_all2 (\<lambda>a x. \<exists>b. p s a = Some (b, x)) starts ys"
        "sorted_wrt (\<lambda>a b. a + length lit \<le> b) starts"
        "\<forall>a \<in> set starts. j' + length lit \<le> a \<and> a \<le> length s
            \<and> take (length lit) (drop (a - length lit) s) = lit" by blast
    have "list_all2 (\<lambda>a x. \<exists>b. p s a = Some (b, x)) (m # starts) xs"
      using st(1) px xs by auto
    moreover have "sorted_wrt (\<lambda>a b. a + length lit \<le> b) (m # starts)"
      using st(2,3) mj by auto
    moreover have "\<forall>a \<in> set (m # starts). j + length lit \<le> a \<and> a \<le> length s
            \<and> take (length lit) (drop (a - length lit) s) = lit"
      using st(3) m ml mj before ok by auto
    ultimately show ?thesis by blast
  qed
qed

lemma sep_by_positions:
  assumes "within p" and "lit \<noteq> []" and "i \<le> length s"
    and "sep_by p (string_p lit) s i = Some (k, xs)"
  shows "\<exists>starts. list_all2 (\<lambda>a x. \<exists>b. p s a = Some (b, x)) starts xs
                  \<and> sorted_wrt (\<lambda>a b. a + length lit \<le> b) starts
                  \<and> (\<forall>a \<in> set starts. i \<le> a \<and> a \<le> length s
                        \<and> (a = i \<or> take (length lit) (drop (a - length lit) s) = lit))"
proof -
  from assms(4) consider
    (some) j x ys where "p s i = Some (j, x)" "many (then_p (string_p lit) p) s j = Some (k, ys)"
      "xs = x # ys"
    | (none) "xs = []"
    by (auto simp: sep_by_def alt_p_Some add_p_Some map_p_Some success_Some)
  then show ?thesis
  proof cases
    case some
    from withinD[OF assms(1,3) some(1)] have j: "i \<le> j \<and> j \<le> length s" .
    then have "j \<le> length s" by simp
    from many_then_positions[OF assms(1,2) this some(2)] obtain starts where
      st: "list_all2 (\<lambda>a x. \<exists>b. p s a = Some (b, x)) starts ys"
        "sorted_wrt (\<lambda>a b. a + length lit \<le> b) starts"
        "\<forall>a \<in> set starts. j + length lit \<le> a \<and> a \<le> length s
            \<and> take (length lit) (drop (a - length lit) s) = lit" by blast
    have "list_all2 (\<lambda>a x. \<exists>b. p s a = Some (b, x)) (i # starts) xs"
      using st(1) some(1,3) by auto
    moreover have "sorted_wrt (\<lambda>a b. a + length lit \<le> b) (i # starts)"
      using st(2,3) j by auto
    moreover have "\<forall>a \<in> set (i # starts). i \<le> a \<and> a \<le> length s
            \<and> (a = i \<or> take (length lit) (drop (a - length lit) s) = lit)"
      using st(3) j assms(3) by auto
    ultimately show ?thesis by blast
  next
    case none
    then show ?thesis by simp
  qed
qed

lemma many_no_step: "p s j = None \<Longrightarrow> many p s j = Some (j, [])"
  by (simp add: many.simps[of p s j])

lemma then_p_None: "p s i = None \<Longrightarrow> then_p p q s i = None"
  by (simp add: then_p_def bind_def)

lemma string_p_fail:
  assumes "drop i s = rest" and "rest = [] \<or> hd rest \<noteq> hd lit" and "lit \<noteq> []"
  shows "string_p lit s i = None"
proof (cases rest)
  case Nil
  with assms(1,3) show ?thesis by (auto simp: string_p_def)
next
  case (Cons c cs)
  with assms obtain l ls where "lit = l # ls" "c \<noteq> l" by (cases lit) auto
  with Cons assms(1) show ?thesis by (auto simp: string_p_def)
qed

lemma not_any_fail:
  assumes "drop i s = rest" and "rest = [] \<or> hd rest \<in> set chars"
  shows "not_any chars s i = None"
  using assms by (cases rest) (auto simp: not_any_def)

text \<open>The name of a source spec: a run without \<^verbatim>\<open>@\<close> and newline, and the character after
  it.\<close>

lemma name_scan:
  assumes d: "drop i s = run @ c # rest"
    and r: "run \<noteq> []" "hd run \<noteq> CHR ''@''" "CHR ''@'' \<notin> set run" "CHR ''\<newline>'' \<notin> set run"
    and c: "c = CHR ''@'' \<or> c = CHR ''\<newline>''"
  shows "add_p (optional (string_p ''@'') '''') (upto ''@'' True) s i
           = Some (Suc (i + length run), run)"
proof -
  from d r have "string_p ''@'' s i = None"
    by (intro string_p_fail[of i s "run @ c # rest"]) (auto simp: hd_append)
  then have o: "optional (string_p ''@'') '''' s i = Some (i, '''')"
    by (simp add: optional_def)
  from not_any_run[OF d r(1), of "''@'' @ [CHR ''\<newline>'']"] r(3,4) c
  have n: "not_any (''@'' @ [CHR ''\<newline>'']) s i = Some (i + length run, run)" by auto
  from drop_after[OF d] have "drop (i + length run) s = c # rest" .
  from any_char_at[OF this] have a: "any_char s (i + length run) = Some (Suc (i + length run), c)" .
  from o n a show ?thesis
    by (simp add: add_p_def upto_def skip_p_def bind_def success_def)
qed

text \<open>Version 2: the header \<^verbatim>\<open>""\<close> with its terminator. The source grammar starts at the
  second quote, takes the quote and the colon as a name and the newline as the character
  after it, and looks for a constraint in the next line.\<close>

lemma header2_name:
  assumes "drop i s = [CHR 0x22, CHR 0x22] @ '':\<newline>'' @ rest"
  shows "string_p [CHR 0x22] s i = Some (Suc i, [CHR 0x22])"
    and "add_p (optional (string_p ''@'') '''') (upto ''@'' True) s (Suc i)
           = Some (i + 4, [CHR 0x22, CHR '':''])"
    and "drop (i + 4) s = rest"
    and "string_p [CHR 0x22] s (Suc i) = Some (Suc (Suc i), [CHR 0x22])"
    and "string_p '':\<newline>'' s (Suc (Suc i)) = Some (i + 4, '':\<newline>'')"
proof -
  from assms have d0: "drop i s = [CHR 0x22] @ ([CHR 0x22, CHR '':''] @ CHR ''\<newline>'' # rest)"
    by simp
  from string_p_at[OF d0] show "string_p [CHR 0x22] s i = Some (Suc i, [CHR 0x22])" by simp
  from drop_after[OF d0] have d1: "drop (Suc i) s = [CHR 0x22, CHR '':''] @ CHR ''\<newline>'' # rest"
    by simp
  from name_scan[OF d1]
  show "add_p (optional (string_p ''@'') '''') (upto ''@'' True) s (Suc i)
           = Some (i + 4, [CHR 0x22, CHR '':''])"
    by (simp add: eval_nat_numeral)
  from drop_after[OF d1] have "drop (Suc i + 2) s = CHR ''\<newline>'' # rest" by simp
  then have d3: "drop (i + 3) s = [CHR ''\<newline>''] @ rest" by (simp add: eval_nat_numeral)
  from drop_after[OF d3] show "drop (i + 4) s = rest" by (simp add: eval_nat_numeral)
  from d1 have d1': "drop (Suc i) s = [CHR 0x22] @ ('':\<newline>'' @ rest)" by simp
  from string_p_at[OF d1'] show "string_p [CHR 0x22] s (Suc i) = Some (Suc (Suc i), [CHR 0x22])"
    by simp
  from drop_after[OF d1'] have d2: "drop (Suc (Suc i)) s = '':\<newline>'' @ rest" by simp
  from string_p_at[OF d2] show "string_p '':\<newline>'' s (Suc (Suc i)) = Some (i + 4, '':\<newline>'')"
    by simp
qed

lemma header2_without_sources:
  assumes d: "drop i s = [CHR 0x22, CHR 0x22] @ '':\<newline>'' @ rest"
    and r: "rest = [] \<or> hd rest \<in> set [CHR 0x22, CHR '','', CHR ''\<newline>'']"
  shows "source2 s (Suc i) = None"
    and "skip_p multi_source2 (string_p '':\<newline>'') s i = Some (i + 4, [])"
proof -
  note h = header2_name[OF d]
  from not_any_fail[OF h(3), of "[CHR 0x22, CHR '',''] @ [CHR ''\<newline>'']"] r
  have "not_any ([CHR 0x22, CHR '',''] @ [CHR ''\<newline>'']) s (i + 4) = None" by simp
  with h(2) show s2: "source2 s (Suc i) = None"
    by (simp add: source2_def pair_def bind_def map_p_def upto_def)
  then have "sep_by source2 (string_p '', '') s (Suc i) = Some (Suc i, [])"
    by (rule sep_by_no_item)
  with h(1,4,5) show "skip_p multi_source2 (string_p '':\<newline>'') s i = Some (i + 4, [])"
    by (simp add: multi_source2_def quoted_def skip_p_def then_p_def bind_def success_def)
qed

lemma header2_reads_next_line:
  assumes d: "drop i s = [CHR 0x22, CHR 0x22] @ '':\<newline>'' @ raw @ rest"
    and w: "raw \<noteq> []" "CHR 0x22 \<notin> set raw" "CHR '','' \<notin> set raw" "CHR ''\<newline>'' \<notin> set raw"
    and r: "rest = [] \<or> hd rest = CHR ''\<newline>''"
  shows "source2 s (Suc i)
           = Some (i + 4 + length raw, [CHR 0x22, CHR '':''], remove_npm_prefix raw)"
    and "skip_p multi_source2 (string_p '':\<newline>'') s i = None"
proof -
  note h = header2_name[OF d]
  let ?k = "i + 4 + length raw"
  from not_any_run[OF h(3) w(1), of "[CHR 0x22, CHR '',''] @ [CHR ''\<newline>'']"] w(2,3,4) r
  have n: "not_any ([CHR 0x22, CHR '',''] @ [CHR ''\<newline>'']) s (i + 4) = Some (?k, raw)"
    by auto
  with h(2) show s2: "source2 s (Suc i)
           = Some (?k, [CHR 0x22, CHR '':''], remove_npm_prefix raw)"
    by (simp add: source2_def pair_def bind_def map_p_def upto_def success_def)
  from drop_after[OF h(3)] have dk: "drop ?k s = rest" by simp
  from string_p_fail[OF dk, of "'', ''"] r have "string_p '', '' s ?k = None" by auto
  then have "many (then_p (string_p '', '') source2) s ?k = Some (?k, [])"
    by (intro many_no_step then_p_None)
  with s2 have sb: "sep_by source2 (string_p '', '') s (Suc i)
      = Some (?k, [([CHR 0x22, CHR '':''], remove_npm_prefix raw)])"
    by (simp add: sep_by_def alt_p_def add_p_def map_p_def bind_def success_def)
  from string_p_fail[OF dk, of "[CHR 0x22]"] r have "string_p [CHR 0x22] s ?k = None" by auto
  with h(1) sb show "skip_p multi_source2 (string_p '':\<newline>'') s i = None"
    by (simp add: multi_source2_def quoted_def skip_p_def then_p_def bind_def)
qed

text \<open>Version 1: a header that is only the terminator.\<close>

lemma header1_name:
  assumes "drop i s = '':\<newline>'' @ rest"
  shows "quoted (source1 True) s i = None"
    and "add_p (optional (string_p ''@'') '''') (upto ''@'' True) s i = Some (i + 2, '':'')"
    and "drop (i + 2) s = rest"
    and "string_p '':\<newline>'' s i = Some (i + 2, '':\<newline>'')"
proof -
  from string_p_fail[OF assms, of "[CHR 0x22]"] have "string_p [CHR 0x22] s i = None" by simp
  then show "quoted (source1 True) s i = None"
    by (simp add: quoted_def skip_p_def then_p_def bind_def)
  from assms have d0: "drop i s = '':'' @ CHR ''\<newline>'' # rest" by simp
  from name_scan[OF d0]
  show "add_p (optional (string_p ''@'') '''') (upto ''@'' True) s i = Some (i + 2, '':'')"
    by simp
  from drop_after[OF assms] show "drop (i + 2) s = rest" by simp
  from string_p_at[OF assms] show "string_p '':\<newline>'' s i = Some (i + 2, '':\<newline>'')" by simp
qed

lemma header1_without_sources:
  assumes d: "drop i s = '':\<newline>'' @ rest"
    and r: "rest = [] \<or> hd rest \<in> set [CHR 0x22, CHR '':'', CHR '','', CHR ''\<newline>'']"
  shows "alt_p (quoted (source1 True)) (source1 False) s i = None"
    and "skip_p multi_source1 (string_p '':\<newline>'') s i = Some (i + 2, [])"
proof -
  note h = header1_name[OF d]
  from not_any_fail[OF h(3), of "([CHR 0x22] @ '':,'') @ [CHR ''\<newline>'']"] r
  have "not_any (([CHR 0x22] @ '':,'') @ [CHR ''\<newline>'']) s (i + 2) = None" by simp
  with h(2) have "source1 False s i = None"
    by (simp add: source1_def pair_def bind_def upto_def)
  with h(1) show a: "alt_p (quoted (source1 True)) (source1 False) s i = None"
    by (simp add: alt_p_def)
  then have "multi_source1 s i = Some (i, [])"
    by (simp add: multi_source1_def sep_by_no_item)
  with h(4) show "skip_p multi_source1 (string_p '':\<newline>'') s i = Some (i + 2, [])"
    by (simp add: skip_p_def bind_def success_def)
qed

lemma header1_reads_next_line:
  assumes d: "drop i s = '':\<newline>'' @ raw @ rest"
    and w: "raw \<noteq> []" "CHR 0x22 \<notin> set raw" "CHR '':'' \<notin> set raw" "CHR '','' \<notin> set raw"
      "CHR ''\<newline>'' \<notin> set raw"
    and r: "rest = [] \<or> hd rest = CHR ''\<newline>''"
  shows "alt_p (quoted (source1 True)) (source1 False) s i
           = Some (i + 2 + length raw, '':'', raw)"
    and "skip_p multi_source1 (string_p '':\<newline>'') s i = None"
proof -
  note h = header1_name[OF d]
  let ?k = "i + 2 + length raw"
  from not_any_run[OF h(3) w(1), of "([CHR 0x22] @ '':,'') @ [CHR ''\<newline>'']"] w(2,3,4,5) r
  have "not_any (([CHR 0x22] @ '':,'') @ [CHR ''\<newline>'']) s (i + 2) = Some (?k, raw)"
    by auto
  with h(2) have "source1 False s i = Some (?k, '':'', raw)"
    by (simp add: source1_def pair_def bind_def upto_def success_def)
  with h(1) show a: "alt_p (quoted (source1 True)) (source1 False) s i = Some (?k, '':'', raw)"
    by (simp add: alt_p_def)
  from drop_after[OF h(3)] have dk: "drop ?k s = rest" by simp
  from string_p_fail[OF dk, of "'', ''"] r have "string_p '', '' s ?k = None" by auto
  then have "many (then_p (string_p '', '') (alt_p (quoted (source1 True)) (source1 False))) s ?k
      = Some (?k, [])"
    by (intro many_no_step then_p_None)
  with a have sb: "multi_source1 s i = Some (?k, [('':'', raw)])"
    by (simp add: multi_source1_def sep_by_def alt_p_def add_p_def map_p_def bind_def success_def)
  from string_p_fail[OF dk, of "'':\<newline>''"] r have "string_p '':\<newline>'' s ?k = None" by auto
  with sb show "skip_p multi_source1 (string_p '':\<newline>'') s i = None"
    by (simp add: skip_p_def bind_def)
qed

section \<open>Line numbers along the text\<close>

lemma newline_count_mono: "a \<le> b \<Longrightarrow> count_list (take a s) c \<le> count_list (take b s) c"
proof -
  assume "a \<le> b"
  then have "take b s = take a s @ take (b - a) (drop a s)"
    using take_add[of a "b - a" s] by simp
  then show ?thesis by simp
qed

lemma line_after_blank_line:
  assumes "a + 2 \<le> b" and "take 2 (drop (b - 2) s) = ''\<newline>\<newline>''"
  shows "count_list (take a s) CHR ''\<newline>'' < count_list (take b s) CHR ''\<newline>''"
proof -
  from assms(1) have e: "b - 2 + 2 = b" by simp
  have "take (b - 2 + 2) s = take (b - 2) s @ take 2 (drop (b - 2) s)"
    by (rule take_add)
  then have "take b s = take (b - 2) s @ take 2 (drop (b - 2) s)"
    by (simp only: e)
  with assms(2) have "count_list (take b s) CHR ''\<newline>''
      = count_list (take (b - 2) s) CHR ''\<newline>'' + 2" by simp
  moreover from assms(1) have "count_list (take a s) CHR ''\<newline>''
      \<le> count_list (take (b - 2) s) CHR ''\<newline>''"
    by (intro newline_count_mono) simp
  ultimately show ?thesis by simp
qed

lemma block_positions:
  assumes w: "within p" and i: "i \<le> length s"
    and sb: "sep_by p (string_p ''\<newline>\<newline>'') s i = Some (k, xs)"
  shows "\<exists>starts. list_all2 (\<lambda>a x. a \<le> length s \<and> (\<exists>b. p s a = Some (b, x))) starts xs
           \<and> sorted_wrt (<) starts
           \<and> sorted_wrt (<) (map (\<lambda>a. Suc (count_list (take a s) CHR ''\<newline>'')) starts)"
proof -
  from sep_by_positions[OF w _ i sb] obtain starts where
    st: "list_all2 (\<lambda>a x. \<exists>b. p s a = Some (b, x)) starts xs"
      "sorted_wrt (\<lambda>a b. a + length ''\<newline>\<newline>'' \<le> b) starts"
      "\<forall>a \<in> set starts. i \<le> a \<and> a \<le> length s
          \<and> (a = i \<or> take (length ''\<newline>\<newline>'') (drop (a - length ''\<newline>\<newline>'') s) = ''\<newline>\<newline>'')"
    by auto
  have a: "list_all2 (\<lambda>a x. a \<le> length s \<and> (\<exists>b. p s a = Some (b, x))) starts xs"
    using st(1,3) by (auto elim!: list.rel_mono_strong)
  have b: "sorted_wrt (<) starts"
    using st(2) by (rule sorted_wrt_mono_rel[rotated]) simp
  have c: "sorted_wrt (\<lambda>a b. Suc (count_list (take a s) CHR ''\<newline>'')
                           < Suc (count_list (take b s) CHR ''\<newline>'')) starts"
    using st(2)
  proof (rule sorted_wrt_mono_rel[rotated])
    fix x y
    assume x: "x \<in> set starts" and y: "y \<in> set starts"
      and xy: "x + length ''\<newline>\<newline>'' \<le> y"
    from st(3) x have "i \<le> x" by blast
    with xy have "y \<noteq> i" by simp
    with st(3) y have "take 2 (drop (y - 2) s) = ''\<newline>\<newline>''"
      by (auto simp: numeral_2_eq_2)
    from line_after_blank_line[OF _ this, of x] xy
    show "Suc (count_list (take x s) CHR ''\<newline>'') < Suc (count_list (take y s) CHR ''\<newline>'')"
      by simp
  qed
  from a b c show ?thesis by (auto simp: sorted_wrt_map)
qed

lemma yarn1_starts_inside:
  assumes "parse yarn1 text = Some deps"
  shows "\<exists>i k. i \<le> length text \<and> sep_by yarn_dep1 (string_p ''\<newline>\<newline>'') text i = Some (k, deps)"
proof -
  from assms obtain a x i y k where
    p: "string_p YARN1_PREFIX text 0 = Some (a, x)"
    and o: "optional_None (string_p ''\<newline>'') text a = Some (i, y)"
    and sb: "sep_by yarn_dep1 (string_p ''\<newline>\<newline>'') text i = Some (k, deps)"
    by (auto simp: parse_def yarn1_def skip_p_Some then_p_Some split: option.splits if_splits)
  from withinD[OF within_string_p _ p] have "a \<le> length text" by simp
  from withinD[OF within_optional_None[OF within_string_p] this o] have "i \<le> length text" by simp
  with sb show ?thesis by blast
qed

lemma yarn2_starts_inside:
  assumes "parse (yarn2 decimal) text = Some deps"
  shows "\<exists>i k. i \<le> length text \<and> sep_by yarn_dep2 (string_p ''\<newline>\<newline>'') text i = Some (k, deps)"
proof -
  have wd: "within (digits decimal)"
  proof (rule withinI)
    fix s :: string and i j a
    assume i: "i \<le> length s" and "digits decimal s i = Some (j, a)"
    then have "j = i + length (takeWhile decimal (drop i s))"
      by (auto simp: digits_def Let_def split: if_splits)
    moreover have "length (takeWhile decimal (drop i s)) \<le> length s - i"
      using length_takeWhile_le[of decimal "drop i s"] by simp
    moreover note i
    ultimately show "i \<le> j \<and> j \<le> length s" by simp
  qed
  have wm: "within (YARN2_METADATA_REGEX decimal)"
    unfolding YARN2_METADATA_REGEX_def by (intro within_add_p within_string_p wd)
  from assms obtain a x b z i y k where
    p: "string_p YARN2_PREFIX text 0 = Some (a, x)"
    and m: "optional_None (YARN2_METADATA_REGEX decimal) text a = Some (b, z)"
    and o: "optional_None (string_p ''\<newline>'') text b = Some (i, y)"
    and sb: "sep_by yarn_dep2 (string_p ''\<newline>\<newline>'') text i = Some (k, deps)"
    by (auto simp: parse_def yarn2_def skip_p_Some then_p_Some split: option.splits if_splits)
  from withinD[OF within_string_p _ p] have "a \<le> length text" by simp
  from withinD[OF within_optional_None[OF wm] this m] have "b \<le> length text" by simp
  from withinD[OF within_optional_None[OF within_string_p] this o] have "i \<le> length text" by simp
  with sb show ?thesis by blast
qed

lemma document_block_positions:
  assumes "parse (if v1 then yarn1 else yarn2 decimal) text = Some deps"
  shows "\<exists>starts. list_all2 (\<lambda>a (ln, sources, fields').
                       a \<le> length text
                       \<and> (\<exists>j. (if v1 then yarn_dep1 else yarn_dep2) text a
                                = Some (j, ln, sources, fields'))
                       \<and> ln = Suc (count_list (take a text) CHR ''\<newline>'')) starts deps
           \<and> sorted_wrt (<) starts
           \<and> sorted_wrt (<) (map fst deps)"
proof -
  let ?dep = "if v1 then yarn_dep1 else yarn_dep2"
  have w: "within ?dep" by (simp add: yarn_dep1_bounds yarn_dep2_bounds)
  from assms yarn1_starts_inside[of "text" deps] yarn2_starts_inside[of decimal "text" deps]
  obtain i k where i: "i \<le> length text"
    and sb: "sep_by ?dep (string_p ''\<newline>\<newline>'') text i = Some (k, deps)"
    by (cases v1) auto
  from block_positions[OF w i sb] obtain starts where
    st: "list_all2 (\<lambda>a x. a \<le> length text \<and> (\<exists>b. ?dep text a = Some (b, x))) starts deps"
      "sorted_wrt (<) starts"
      "sorted_wrt (<) (map (\<lambda>a. Suc (count_list (take a text) CHR ''\<newline>'')) starts)"
    by blast
  have line: "?dep text a = Some (j, ln, b) \<Longrightarrow> ln = Suc (count_list (take a text) CHR ''\<newline>'')"
    for a j ln b
    using yarn_dep1_line[of "text" a j ln b] yarn_dep2_line[of "text" a j ln b]
    by (cases v1) auto
  have a: "list_all2 (\<lambda>a (ln, sources, fields').
                       a \<le> length text
                       \<and> (\<exists>j. ?dep text a = Some (j, ln, sources, fields'))
                       \<and> ln = Suc (count_list (take a text) CHR ''\<newline>'')) starts deps"
    using st(1) by (rule list_all2_mono) (auto dest: line)
  then have "map (\<lambda>a. Suc (count_list (take a text) CHR ''\<newline>'')) starts = map fst deps"
    by (induction rule: list_all2_induct) auto
  with st(3) have "sorted_wrt (<) (map fst deps)" by simp
  with a st(2) show ?thesis by blast
qed

section \<open>Where the sources of a version 2 block are read\<close>

lemma optional_at_text:
  assumes "optional (string_p ''@'') '''' s p = Some (p1, at)"
  shows "drop p1 s = drop (p + length at) s \<and> (\<exists>r0. drop p s = at @ r0) \<and> (at = [] \<or> at = ''@'')"
proof (cases "string_p ''@'' s p")
  case None
  with assms have "p1 = p" "at = []" by (simp_all add: optional_def)
  then show ?thesis by simp
next
  case (Some r)
  with assms have r: "string_p ''@'' s p = Some (p1, at)" by (simp add: optional_def)
  from string_p_text[OF r] show ?thesis by auto
qed

lemma source2_parts:
  assumes "source2 s p = Some (k, name, constraint)"
  shows "\<exists>p1 at p2 run p3 d raw.
           optional (string_p ''@'') '''' s p = Some (p1, at)
           \<and> not_any (''@'' @ [CHR ''\<newline>'']) s p1 = Some (p2, run)
           \<and> any_char s p2 = Some (p3, d)
           \<and> not_any ([CHR 0x22, CHR '',''] @ [CHR ''\<newline>'']) s p3 = Some (k, raw)
           \<and> name = at @ run \<and> constraint = remove_npm_prefix raw"
proof -
  from assms obtain j raw where
    nm: "add_p (optional (string_p ''@'') '''') (upto ''@'' True) s p = Some (j, name)"
    and rw: "upto [CHR 0x22, CHR '',''] False s j = Some (k, raw)"
    and c: "constraint = remove_npm_prefix raw"
    unfolding source2_def pair_Some map_p_Some by blast
  from nm obtain p1 at run where
    o: "optional (string_p ''@'') '''' s p = Some (p1, at)"
    and u: "upto ''@'' True s p1 = Some (j, run)" and name: "name = at @ run"
    unfolding add_p_Some by blast
  from u obtain p2 d where
    n: "not_any (''@'' @ [CHR ''\<newline>'']) s p1 = Some (p2, run)"
    and a: "any_char s p2 = Some (j, d)"
    by (auto simp: upto_def skip_p_Some)
  from rw have r: "not_any ([CHR 0x22, CHR '',''] @ [CHR ''\<newline>'']) s j = Some (k, raw)"
    by (simp add: upto_def)
  from o n a r name c show ?thesis by blast
qed

lemma optional_at_pos:
  assumes "optional (string_p ''@'') '''' s p = Some (p1, at)"
  shows "p1 = p + length at"
proof (cases "string_p ''@'' s p")
  case None
  with assms show ?thesis by (simp add: optional_def)
next
  case (Some r)
  obtain j v where r: "r = (j, v)" by (cases r)
  from Some r assms have "p1 = j" "at = v" by (simp_all add: optional_def)
  with string_p_text[OF Some[unfolded r]] show ?thesis by simp
qed

lemma source2_span:
  assumes "source2 s p = Some (k, name, constraint)"
  shows "\<exists>d raw rest.
           drop p s = name @ d # raw @ rest
           \<and> k = p + length name + 1 + length raw
           \<and> name \<noteq> [] \<and> name \<noteq> ''@''
           \<and> CHR ''\<newline>'' \<notin> set name \<and> CHR ''@'' \<notin> set (tl name)
           \<and> (d = CHR ''@'' \<or> d = CHR ''\<newline>'')
           \<and> raw \<noteq> [] \<and> (\<forall>c \<in> set raw. c \<notin> set [CHR 0x22, CHR '','', CHR ''\<newline>''])
           \<and> (rest = [] \<or> hd rest \<in> set [CHR 0x22, CHR '','', CHR ''\<newline>''])
           \<and> constraint = remove_npm_prefix raw"
proof -
  from source2_parts[OF assms] obtain p1 at p2 run p3 d raw where
    o: "optional (string_p ''@'') '''' s p = Some (p1, at)"
    and n: "not_any (''@'' @ [CHR ''\<newline>'']) s p1 = Some (p2, run)"
    and a: "any_char s p2 = Some (p3, d)"
    and r: "not_any ([CHR 0x22, CHR '',''] @ [CHR ''\<newline>'']) s p3 = Some (k, raw)"
    and name: "name = at @ run" and c: "constraint = remove_npm_prefix raw"
    by blast
  from optional_at_text[OF o] obtain r0 where
    at: "drop p1 s = drop (p + length at) s" "drop p s = at @ r0" "at = [] \<or> at = ''@''"
    by blast
  from not_any_text[OF n] obtain r1 where
    n': "run \<noteq> []" "p2 = p1 + length run" "\<forall>c \<in> set run. c \<notin> set (''@'' @ [CHR ''\<newline>''])"
      "drop p1 s = run @ r1" "r1 = [] \<or> hd r1 \<in> set (''@'' @ [CHR ''\<newline>''])" by blast
  from any_char_text[OF a] obtain r2 where a': "p3 = Suc p2" "drop p2 s = d # r2" by blast
  from not_any_text[OF r] obtain r3 where
    r': "raw \<noteq> []" "\<forall>c \<in> set raw. c \<notin> set ([CHR 0x22, CHR '',''] @ [CHR ''\<newline>''])"
      "drop p3 s = raw @ r3" "r3 = [] \<or> hd r3 \<in> set ([CHR 0x22, CHR '',''] @ [CHR ''\<newline>''])"
      "k = p3 + length raw"
    by blast
  have kk: "k = p + length name + 1 + length raw"
    using optional_at_pos[OF o] n'(2) a'(1) r'(5) name by simp
  have "drop (p1 + length run) s = r1" by (rule drop_after[OF n'(4)])
  with n'(2) have "drop p2 s = r1" by (simp only:)
  with a'(2) have r1: "r1 = d # r2" by (simp only:)
  from n'(5) have "r1 = [] \<or> hd r1 = CHR ''@'' \<or> hd r1 = CHR ''\<newline>''" by simp
  then have d: "d = CHR ''@'' \<or> d = CHR ''\<newline>''" unfolding r1 by simp
  from a'(2) have "drop p2 s = [d] @ r2" by simp
  then have "drop (p2 + length [d]) s = r2" by (rule drop_after)
  then have "drop p3 s = r2" unfolding a'(1) by simp
  with r'(3) have r2: "r2 = raw @ r3" by (simp only:)
  have d1: "drop p1 s = run @ d # raw @ r3" unfolding n'(4) r1 r2 ..
  have "drop (p + length at) s = r0" by (rule drop_after[OF at(2)])
  with at(1) have "r0 = drop p1 s" by (simp only:)
  then have "drop p s = at @ run @ d # raw @ r3" unfolding at(2) d1 by (simp only:)
  then have dp: "drop p s = name @ d # raw @ r3" unfolding name by simp
  from n'(3) have run_ok: "CHR ''@'' \<notin> set run" "CHR ''\<newline>'' \<notin> set run" by auto
  have n0: "name \<noteq> []" unfolding name using n'(1) by simp
  have n0': "name \<noteq> ''@''"
  proof (cases "at = []")
    case True
    then have "name = run" unfolding name by simp
    with run_ok(1) show ?thesis by auto
  next
    case False
    with at(3) have "name = CHR ''@'' # run" unfolding name by auto
    with n'(1) show ?thesis by simp
  qed
  have n1: "CHR ''\<newline>'' \<notin> set name"
    unfolding name using at(3) run_ok(2) by auto
  have n2: "CHR ''@'' \<notin> set (tl name)"
  proof (cases "at = []")
    case True
    then have "tl name = tl run" unfolding name by simp
    moreover have "set (tl run) \<subseteq> set run" by (cases run) auto
    ultimately show ?thesis using run_ok(1) by auto
  next
    case False
    with at(3) have "tl name = run" unfolding name by auto
    with run_ok(1) show ?thesis by simp
  qed
  from r'(2) have r2': "\<forall>c \<in> set raw. c \<notin> set [CHR 0x22, CHR '','', CHR ''\<newline>'']" by simp
  from r'(4) have r4: "r3 = [] \<or> hd r3 \<in> set [CHR 0x22, CHR '','', CHR ''\<newline>'']" by simp
  show ?thesis
    by (rule exI[of _ d], rule exI[of _ raw], rule exI[of _ r3])
       (intro conjI dp kk n0 n0' n1 n2 d r'(1) r2' r4 c)
qed

lemma yarn_dep2_header:
  assumes "yarn_dep2 s a = Some (j, ln, sources, fields')"
  shows "\<exists>k. string_p [CHR 0x22] s a = Some (Suc a, [CHR 0x22])
           \<and> sep_by source2 (string_p '', '') s (Suc a) = Some (k, sources)"
proof -
  from assms obtain j1 where "multi_source2 s a = Some (j1, sources)"
    unfolding yarn_dep2_def mark_line_Some pair_Some skip_p_Some by auto
  then obtain j0 k where q: "string_p [CHR 0x22] s a = Some (j0, [CHR 0x22])"
    and sb: "sep_by source2 (string_p '', '') s j0 = Some (k, sources)"
    unfolding multi_source2_def quoted_Some by blast
  from string_p_text[OF q] have "j0 = Suc a" by simp
  with q sb show ?thesis by blast
qed

text \<open>The items of a separated list are read one after the other: the first where the
  list starts, each next one behind the separator that follows the end of the one
  before.\<close>

lemma many_then_spans:
  "many (then_p (string_p lit) p) s j = Some (k, xs) \<Longrightarrow>
     \<exists>spans. list_all2 (\<lambda>(a, b) x. p s a = Some (b, x)) spans xs
            \<and> read_in_sequence (length lit) (j + length lit) spans"
proof (induction "then_p (string_p lit) p" s j arbitrary: k xs rule: many.induct)
  case (1 s j)
  let ?q = "then_p (string_p lit) p"
  show ?case
  proof (cases "?q s j")
    case None
    with "1.prems" have "xs = []" by (simp add: many.simps[of ?q s j])
    then have "list_all2 (\<lambda>(a, b) x. p s a = Some (b, x)) [] xs
                 \<and> read_in_sequence (length lit) (j + length lit) []" by simp
    then show ?thesis by blast
  next
    case (Some r)
    obtain j' x where r: "r = (j', x)" by (cases r)
    from "1.prems" Some r have ok: "j < j' \<and> j' \<le> length s"
      by (simp add: many.simps[of ?q s j] split: if_splits)
    from "1.prems" Some r ok obtain ys where rec: "many ?q s j' = Some (k, ys)"
      and xs: "xs = x # ys"
      by (auto simp: many.simps[of ?q s j] split: option.splits)
    from Some r obtain m l where sp: "string_p lit s j = Some (m, l)"
      and px: "p s m = Some (j', x)"
      by (auto simp: then_p_Some)
    from string_p_text[OF sp] have m: "m = j + length lit" by blast
    from "1.hyps"[OF Some r[symmetric] ok rec] obtain spans where
      st: "list_all2 (\<lambda>(a, b) x. p s a = Some (b, x)) spans ys"
        "read_in_sequence (length lit) (j' + length lit) spans" by blast
    have "list_all2 (\<lambda>(a, b) x. p s a = Some (b, x)) ((m, j') # spans) xs"
      using st(1) px xs by simp
    moreover have "read_in_sequence (length lit) (j + length lit) ((m, j') # spans)"
      using st(2) m by simp
    ultimately show ?thesis by blast
  qed
qed

lemma sep_by_spans:
  assumes "sep_by p (string_p lit) s i = Some (k, xs)"
  shows "\<exists>spans. list_all2 (\<lambda>(a, b) x. p s a = Some (b, x)) spans xs
                \<and> read_in_sequence (length lit) i spans"
proof -
  from assms consider
    (some) j x ys where "p s i = Some (j, x)" "many (then_p (string_p lit) p) s j = Some (k, ys)"
      "xs = x # ys"
    | (none) "xs = []"
    by (auto simp: sep_by_def alt_p_Some add_p_Some map_p_Some success_Some)
  then show ?thesis
  proof cases
    case some
    from many_then_spans[OF some(2)] obtain spans where
      st: "list_all2 (\<lambda>(a, b) x. p s a = Some (b, x)) spans ys"
        "read_in_sequence (length lit) (j + length lit) spans" by blast
    have "list_all2 (\<lambda>(a, b) x. p s a = Some (b, x)) ((i, j) # spans) xs"
      using st(1) some(1,3) by simp
    moreover have "read_in_sequence (length lit) i ((i, j) # spans)"
      using st(2) by simp
    ultimately show ?thesis by blast
  next
    case none
    then have "list_all2 (\<lambda>(a, b) x. p s a = Some (b, x)) [] xs
                 \<and> read_in_sequence (length lit) i []" by simp
    then show ?thesis by blast
  qed
qed

lemma yarn_dep2_source_spans:
  assumes "yarn_dep2 s a = Some (j, ln, sources, fields')"
  shows "\<exists>spans r. drop a s = CHR 0x22 # r
           \<and> list_all2 (\<lambda>(p, k) src. source2 s p = Some (k, src)) spans sources
           \<and> read_in_sequence 2 (Suc a) spans"
proof -
  from yarn_dep2_header[OF assms] obtain k where
    q: "string_p [CHR 0x22] s a = Some (Suc a, [CHR 0x22])"
    and sb: "sep_by source2 (string_p '', '') s (Suc a) = Some (k, sources)" by blast
  from string_p_text[OF q] obtain r where r: "drop a s = CHR 0x22 # r" by auto
  from sep_by_spans[OF sb] obtain spans where
    sp: "list_all2 (\<lambda>(p, k) src. source2 s p = Some (k, src)) spans sources"
      "read_in_sequence (length '', '') (Suc a) spans" by blast
  have "length '', '' = 2" by simp
  with sp(2) have "read_in_sequence 2 (Suc a) spans" by (simp only:)
  with r sp(1) show ?thesis by blast
qed

section \<open>The claims\<close>

text \<open>
  C1. Whenever the document grammar selected for the lockfile's text succeeds,
  \<open>parse_yarn\<close> emits exactly one record for each parsed block that has at least one source
  spec and a \<^verbatim>\<open>version\<close> field, none for the other blocks, in the order of the blocks; each
  record carries its block's line number, the first source's package name and the
  \<^verbatim>\<open>version\<close> field. The parsed blocks are in the order of the file: they were read by the
  block grammar at indices of the text that grow along the list, each the index where the
  block's header starts, and a block's line number is one more than the number of newlines
  before that index. So the line numbers of the emitted records grow strictly.
\<close>

theorem parse_yarn_one_record_per_valid_block:
  assumes "safe_path_parse text
             (if startswith text YARN1_PREFIX then yarn1 else yarn2 (decimal_digit E))
           = Some deps"
  shows "list_all2
           (\<lambda>r (ln, sources, fields').
              line_number r = ln \<and> (\<exists>c rest. sources = (package r, c) # rest) \<and>
              fields' ''version'' = Some (version r))
           (parse_yarn E text manifest_path)
           (filter (\<lambda>(ln, sources, fields'). sources \<noteq> [] \<and> fields' ''version'' \<noteq> None) deps)
         \<and> (\<exists>starts.
               sorted_wrt (<) starts
               \<and> list_all2
                   (\<lambda>i (ln, sources, fields').
                      (\<exists>j. (if startswith text YARN1_PREFIX then yarn_dep1 else yarn_dep2) text i
                             = Some (j, ln, sources, fields'))
                      \<and> ln = Suc (count_list (take i text) CHR ''\<newline>''))
                   starts deps)
         \<and> sorted_wrt (<) (map line_number (parse_yarn E text manifest_path))"
proof -
  let ?keep = "\<lambda>(ln, sources, fields'). sources \<noteq> [] \<and> fields' ''version'' \<noteq> (None :: string option)"
  have "list_all2
           (\<lambda>r (ln, sources, fields').
              line_number r = ln \<and> (\<exists>c rest. sources = (package r, c) # rest) \<and>
              fields' ''version'' = Some (version r))
           (parse_yarn_loop E v md deps) (filter ?keep deps)"
    for v md
    by (induction E v md deps rule: parse_yarn_loop.induct)
       (auto split: list.splits option.splits simp: Let_def)
  with assms have a: "list_all2
           (\<lambda>r (ln, sources, fields').
              line_number r = ln \<and> (\<exists>c rest. sources = (package r, c) # rest) \<and>
              fields' ''version'' = Some (version r))
           (parse_yarn E text manifest_path) (filter ?keep deps)"
    by (simp add: parse_yarn_unfold)
  from assms have "parse (if startswith text YARN1_PREFIX then yarn1
                          else yarn2 (decimal_digit E)) text = Some deps"
    by (simp add: safe_path_parse_def)
  from document_block_positions[OF this] obtain starts where
    st: "list_all2 (\<lambda>a (ln, sources, fields').
                       a \<le> length text
                       \<and> (\<exists>j. (if startswith text YARN1_PREFIX then yarn_dep1 else yarn_dep2) text a
                                = Some (j, ln, sources, fields'))
                       \<and> ln = Suc (count_list (take a text) CHR ''\<newline>'')) starts deps"
      "sorted_wrt (<) starts" "sorted_wrt (<) (map fst deps)"
    by blast
  have "list_all2
          (\<lambda>i (ln, sources, fields').
             (\<exists>j. (if startswith text YARN1_PREFIX then yarn_dep1 else yarn_dep2) text i
                    = Some (j, ln, sources, fields'))
             \<and> ln = Suc (count_list (take i text) CHR ''\<newline>''))
          starts deps"
    using st(1) by (rule list_all2_mono) auto
  with st(2) have b: "\<exists>starts.
               sorted_wrt (<) starts
               \<and> list_all2
                   (\<lambda>i (ln, sources, fields').
                      (\<exists>j. (if startswith text YARN1_PREFIX then yarn_dep1 else yarn_dep2) text i
                             = Some (j, ln, sources, fields'))
                      \<and> ln = Suc (count_list (take i text) CHR ''\<newline>''))
                   starts deps"
    by blast
  from a have "map line_number (parse_yarn E text manifest_path) = map fst (filter ?keep deps)"
    by (induction rule: list_all2_induct) auto
  moreover from st(3) have "sorted_wrt (<) (map fst (filter ?keep deps))"
    by (simp add: sorted_wrt_map sorted_wrt_filter)
  ultimately have c: "sorted_wrt (<) (map line_number (parse_yarn E text manifest_path))"
    by simp
  from a b c show ?thesis by blast
qed

text \<open>The version 1 example: three blocks, the one without a \<^verbatim>\<open>version\<close> field dropped.\<close>

theorem parse_yarn_one_record_per_valid_block_witness:
  "safe_path_parse example_v1
     (if startswith example_v1 YARN1_PREFIX then yarn1
      else yarn2 (decimal_digit example_collaborators))
     = Some example_v1_blocks
   \<and> map line_number (parse_yarn example_collaborators example_v1 None) = [4, 11]
   \<and> map package (parse_yarn example_collaborators example_v1 None) = [''a'', ''c'']
   \<and> map version (parse_yarn example_collaborators example_v1 None) = [''1.2.3'', ''3'']
   \<and> sorted_wrt (<) (map line_number (parse_yarn example_collaborators example_v1 None))"
proof -
  have h: "safe_path_parse example_v1
     (if startswith example_v1 YARN1_PREFIX then yarn1
      else yarn2 (decimal_digit example_collaborators))
     = Some example_v1_blocks"
    using example_v1_parse example_v1_banner by simp
  note t = parse_yarn_one_record_per_valid_block[OF h, of None]
  from t have "list_all2
           (\<lambda>r (ln, sources, fields').
              line_number r = ln \<and> (\<exists>c rest. sources = (package r, c) # rest) \<and>
              fields' ''version'' = Some (version r))
           (parse_yarn example_collaborators example_v1 None)
           (filter (\<lambda>(ln, sources, fields'). sources \<noteq> [] \<and> fields' ''version'' \<noteq> None)
              example_v1_blocks)"
    by blast
  then have "map line_number (parse_yarn example_collaborators example_v1 None) = [4, 11]
   \<and> map package (parse_yarn example_collaborators example_v1 None) = [''a'', ''c'']
   \<and> map version (parse_yarn example_collaborators example_v1 None) = [''1.2.3'', ''3'']"
    by (auto simp: example_v1_blocks_def list_all2_Cons2)
  moreover from t
  have "sorted_wrt (<) (map line_number (parse_yarn example_collaborators example_v1 None))"
    by blast
  ultimately show ?thesis using h by blast
qed

text \<open>
  C2. When the document grammar selected for the text fails, \<open>parse_yarn\<close> returns the
  empty list: the failure is the value \<^verbatim>\<open>None\<close> of \<open>safe_path_parse\<close>, and no record of a
  partly parsed document is returned. A text that starts with neither banner is such a
  failure.
\<close>

theorem parse_yarn_failed_grammar_no_records:
  "(safe_path_parse text
        (if startswith text YARN1_PREFIX then yarn1 else yarn2 (decimal_digit E)) = None
      \<longrightarrow> parse_yarn E text manifest_path = [])
   \<and> (\<not> startswith text YARN1_PREFIX \<and> \<not> startswith text YARN2_PREFIX
      \<longrightarrow> safe_path_parse text
            (if startswith text YARN1_PREFIX then yarn1 else yarn2 (decimal_digit E)) = None)"
  by (simp add: parse_yarn_unfold safe_path_parse_def yarn2_needs_banner)

text \<open>A truncated block after the version 1 banner, and a text without a banner.\<close>

theorem parse_yarn_failed_grammar_no_records_witness:
  "safe_path_parse truncated_v1
     (if startswith truncated_v1 YARN1_PREFIX then yarn1
      else yarn2 (decimal_digit example_collaborators))
     = None
   \<and> parse_yarn example_collaborators truncated_v1 None = []
   \<and> \<not> startswith unbannered_v1 YARN1_PREFIX \<and> \<not> startswith unbannered_v1 YARN2_PREFIX
   \<and> parse_yarn example_collaborators unbannered_v1 None = []"
proof -
  have h: "safe_path_parse truncated_v1
             (if startswith truncated_v1 YARN1_PREFIX then yarn1
              else yarn2 (decimal_digit example_collaborators)) = None"
    using truncated_v1_parse truncated_v1_banner by simp
  have a: "parse_yarn example_collaborators truncated_v1 None = []"
    using parse_yarn_failed_grammar_no_records[of truncated_v1 example_collaborators None] h
    by simp
  have b: "parse_yarn example_collaborators unbannered_v1 None = []"
    using parse_yarn_failed_grammar_no_records[of unbannered_v1 example_collaborators None]
      unbannered_v1_banner by simp
  from h a b unbannered_v1_banner show ?thesis by simp
qed

text \<open>
  C4. The text starts with \<open>YARN1_PREFIX\<close> exactly when it is that banner followed by some
  rest. With the banner, \<open>parse_yarn\<close> runs the version 1 grammar (and assembles with version
  1); without it, whatever else the text looks like, it runs the version 2 grammar.
\<close>

theorem parse_yarn_dialect_dispatch:
  "(startswith text YARN1_PREFIX \<longleftrightarrow> (\<exists>rest. text = YARN1_PREFIX @ rest))
   \<and> (startswith text YARN1_PREFIX \<longrightarrow>
        parse_yarn E text manifest_path =
          (case safe_path_parse text yarn1 of
             None \<Rightarrow> []
           | Some deps \<Rightarrow> parse_yarn_loop E 1 (get_manifest_deps E manifest_path) deps))
   \<and> (\<not> startswith text YARN1_PREFIX \<longrightarrow>
        parse_yarn E text manifest_path =
          (case safe_path_parse text (yarn2 (decimal_digit E)) of
             None \<Rightarrow> []
           | Some deps \<Rightarrow> parse_yarn_loop E 2 (get_manifest_deps E manifest_path) deps))"
proof -
  have a: "startswith text YARN1_PREFIX \<longleftrightarrow> (\<exists>rest. text = YARN1_PREFIX @ rest)"
    unfolding startswith_def
    by (metis append_eq_conv_conj append_take_drop_id)
  have b: "startswith text YARN1_PREFIX \<longrightarrow>
        parse_yarn E text manifest_path =
          (case safe_path_parse text yarn1 of
             None \<Rightarrow> []
           | Some deps \<Rightarrow> parse_yarn_loop E 1 (get_manifest_deps E manifest_path) deps)"
    by (simp add: parse_yarn_unfold)
  have c: "\<not> startswith text YARN1_PREFIX \<longrightarrow>
        parse_yarn E text manifest_path =
          (case safe_path_parse text (yarn2 (decimal_digit E)) of
             None \<Rightarrow> []
           | Some deps \<Rightarrow> parse_yarn_loop E 2 (get_manifest_deps E manifest_path) deps)"
    by (simp add: parse_yarn_unfold)
  from a b c show ?thesis by blast
qed

text \<open>The version 1 example, and a version 1 body under a banner that lacks its first line.\<close>

theorem parse_yarn_dialect_dispatch_witness:
  "startswith example_v1 YARN1_PREFIX
   \<and> parse_yarn example_collaborators example_v1 None =
       parse_yarn_loop example_collaborators 1
         (get_manifest_deps example_collaborators None) example_v1_blocks
   \<and> \<not> startswith unbannered_v1 YARN1_PREFIX
   \<and> parse_yarn example_collaborators unbannered_v1 None =
       (case safe_path_parse unbannered_v1 (yarn2 (decimal_digit example_collaborators)) of
          None \<Rightarrow> []
        | Some deps \<Rightarrow>
            parse_yarn_loop example_collaborators 2
              (get_manifest_deps example_collaborators None) deps)"
  using parse_yarn_dialect_dispatch[of example_v1 example_collaborators None]
    parse_yarn_dialect_dispatch[of unbannered_v1 example_collaborators None]
    example_v1_banner example_v1_parse unbannered_v1_banner
  by simp

text \<open>
  C6. The \<^verbatim>\<open>resolved_url\<close> of every emitted record is \<open>remove_trailing_octothorpe\<close> of its
  block's \<^verbatim>\<open>resolved\<close> field: for a value with a \<^verbatim>\<open>#\<close> everything before the last \<^verbatim>\<open>#\<close>,
  for a value without \<^verbatim>\<open>#\<close> the value itself, and nothing for a block without the field.
\<close>

theorem resolved_url_fragment_stripped:
  assumes "safe_path_parse text
             (if startswith text YARN1_PREFIX then yarn1 else yarn2 (decimal_digit E))
           = Some deps"
  shows "list_all2
           (\<lambda>r (ln, sources, fields').
              resolved_url r = remove_trailing_octothorpe (fields' ''resolved''))
           (parse_yarn E text manifest_path)
           (filter (\<lambda>(ln, sources, fields'). sources \<noteq> [] \<and> fields' ''version'' \<noteq> None) deps)
         \<and> (CHR ''#'' \<notin> set b \<longrightarrow> remove_trailing_octothorpe (Some (a @ ''#'' @ b)) = Some a)
         \<and> (CHR ''#'' \<notin> set u \<longrightarrow> remove_trailing_octothorpe (Some u) = Some u)
         \<and> remove_trailing_octothorpe None = None"
proof -
  have a: "list_all2
           (\<lambda>r (ln, sources, fields').
              resolved_url r = remove_trailing_octothorpe (fields' ''resolved''))
           (parse_yarn E text manifest_path)
           (filter (\<lambda>(ln, sources, fields'). sources \<noteq> [] \<and> fields' ''version'' \<noteq> None) deps)"
    using assms by (simp only: parse_yarn_unfold option.case loop_resolved)
  have b: "CHR ''#'' \<notin> set b \<longrightarrow> remove_trailing_octothorpe (Some (a @ ''#'' @ b)) = Some a"
    using rto_before_last by blast
  have c: "CHR ''#'' \<notin> set u \<longrightarrow> remove_trailing_octothorpe (Some u) = Some u"
    by (simp add: remove_trailing_octothorpe_def)
  have d: "remove_trailing_octothorpe None = None"
    by (simp add: remove_trailing_octothorpe_def)
  from a b c d show ?thesis by blast
qed

text \<open>The version 1 example, whose first block has \<^verbatim>\<open>resolved "a#b#c"\<close> and whose last has no \<^verbatim>\<open>resolved\<close>.\<close>

theorem resolved_url_fragment_stripped_witness:
  "safe_path_parse example_v1
     (if startswith example_v1 YARN1_PREFIX then yarn1
      else yarn2 (decimal_digit example_collaborators))
     = Some example_v1_blocks
   \<and> map resolved_url (parse_yarn example_collaborators example_v1 None) = [Some ''a#b'', None]
   \<and> CHR ''#'' \<notin> set ''c'' \<and> remove_trailing_octothorpe (Some (''a#b'' @ ''#'' @ ''c'')) = Some ''a#b''
   \<and> CHR ''#'' \<notin> set ''https://host/pkg.tgz''
   \<and> remove_trailing_octothorpe (Some ''https://host/pkg.tgz'') = Some ''https://host/pkg.tgz''"
proof -
  have h: "safe_path_parse example_v1
     (if startswith example_v1 YARN1_PREFIX then yarn1
      else yarn2 (decimal_digit example_collaborators))
     = Some example_v1_blocks"
    using example_v1_parse example_v1_banner by simp
  note t = resolved_url_fragment_stripped[OF h, where manifest_path = None and b = "''c''"
      and a = "''a#b''" and u = "''https://host/pkg.tgz''"]
  have c: "CHR ''#'' \<notin> set ''c''" and d: "CHR ''#'' \<notin> set ''https://host/pkg.tgz''" by simp_all
  from t have "list_all2
           (\<lambda>r (ln, sources, fields').
              resolved_url r = remove_trailing_octothorpe (fields' ''resolved''))
           (parse_yarn example_collaborators example_v1 None)
           (filter (\<lambda>(ln, sources, fields'). sources \<noteq> [] \<and> fields' ''version'' \<noteq> None)
              example_v1_blocks)" by blast
  then have "map resolved_url (parse_yarn example_collaborators example_v1 None)
      = [remove_trailing_octothorpe (Some (''a#b'' @ ''#'' @ ''c'')), None]"
    by (auto simp: example_v1_blocks_def list_all2_Cons2 remove_trailing_octothorpe_def)
  moreover from t c have "remove_trailing_octothorpe (Some (''a#b'' @ ''#'' @ ''c'')) = Some ''a#b''"
    by blast
  moreover from t d have "remove_trailing_octothorpe (Some ''https://host/pkg.tgz'') = Some ''https://host/pkg.tgz''"
    by blast
  ultimately show ?thesis using h c d by simp
qed

text \<open>
  C5. In a parsed version 2 document the blocks were read at growing indices of the text.
  The header of a block opens with a double quote, and its sources were read one after the
  other: the first right after the quote, each next one two characters (the comma and the
  space) after the end of the one before. Where a source starts the text reads its name,
  one character (the \<^verbatim>\<open>@\<close> after the name) and then the constraint text, the longest run up
  to the next quote, comma or newline, where the source ends. The extracted constraint is
  that run without its first four characters when it starts with \<^verbatim>\<open>npm:\<close>, and the run
  unchanged otherwise; so a constraint under \<^verbatim>\<open>file:\<close>, \<^verbatim>\<open>patch:\<close> or \<^verbatim>\<open>https:\<close> is kept as
  written.
\<close>

theorem source2_npm_prefix_removed:
  assumes "safe_path_parse text (yarn2 (decimal_digit E)) = Some deps"
  shows "(\<exists>starts.
            sorted_wrt (<) starts
            \<and> list_all2
                (\<lambda>a (ln, sources, fields').
                   (\<exists>j. yarn_dep2 text a = Some (j, ln, sources, fields'))
                   \<and> (\<exists>spans r.
                         drop a text = CHR 0x22 # r
                         \<and> read_in_sequence 2 (Suc a) spans
                         \<and> list_all2
                             (\<lambda>(p, k) (name, constraint).
                                \<exists>d raw rest.
                                  drop p text = name @ d # raw @ rest
                                  \<and> k = p + length name + 1 + length raw
                                  \<and> name \<noteq> [] \<and> name \<noteq> ''@''
                                  \<and> CHR ''\<newline>'' \<notin> set name \<and> CHR ''@'' \<notin> set (tl name)
                                  \<and> (d = CHR ''@'' \<or> d = CHR ''\<newline>'')
                                  \<and> raw \<noteq> []
                                  \<and> (\<forall>c \<in> set raw. c \<notin> set [CHR 0x22, CHR '','', CHR ''\<newline>''])
                                  \<and> (rest = [] \<or> hd rest \<in> set [CHR 0x22, CHR '','', CHR ''\<newline>''])
                                  \<and> (\<forall>c. raw = ''npm:'' @ c \<longrightarrow> constraint = c)
                                  \<and> (\<not> startswith raw ''npm:'' \<longrightarrow> constraint = raw))
                             spans sources))
                starts deps)
         \<and> remove_npm_prefix (''npm:'' @ c) = c
         \<and> remove_npm_prefix (''file:'' @ c) = ''file:'' @ c
         \<and> remove_npm_prefix (''patch:'' @ c) = ''patch:'' @ c
         \<and> remove_npm_prefix (''https:'' @ c) = ''https:'' @ c"
proof -
  let ?src = "\<lambda>(p, k) (name, constraint).
                \<exists>d raw rest.
                  drop p text = name @ d # raw @ rest
                  \<and> k = p + length name + 1 + length raw
                  \<and> name \<noteq> [] \<and> name \<noteq> ''@''
                  \<and> CHR ''\<newline>'' \<notin> set name \<and> CHR ''@'' \<notin> set (tl name)
                  \<and> (d = CHR ''@'' \<or> d = CHR ''\<newline>'')
                  \<and> raw \<noteq> []
                  \<and> (\<forall>c \<in> set raw. c \<notin> set [CHR 0x22, CHR '','', CHR ''\<newline>''])
                  \<and> (rest = [] \<or> hd rest \<in> set [CHR 0x22, CHR '','', CHR ''\<newline>''])
                  \<and> (\<forall>c. raw = ''npm:'' @ c \<longrightarrow> constraint = c)
                  \<and> (\<not> startswith raw ''npm:'' \<longrightarrow> constraint = raw)"
  have src: "?src pk x" if "(\<lambda>(p, k) src. source2 text p = Some (k, src)) pk x" for pk x
  proof -
    obtain p k where pk: "pk = (p, k)" by (cases pk)
    obtain name constraint where x: "x = (name, constraint)" by (cases x)
    from that have s2: "source2 text p = Some (k, name, constraint)"
      unfolding pk x by simp
    from source2_span[OF s2] obtain d raw rest where
      t: "drop p text = name @ d # raw @ rest"
        "k = p + length name + 1 + length raw"
        "name \<noteq> []" "name \<noteq> ''@''"
        "CHR ''\<newline>'' \<notin> set name" "CHR ''@'' \<notin> set (tl name)"
        "d = CHR ''@'' \<or> d = CHR ''\<newline>''" "raw \<noteq> []"
        "\<forall>c \<in> set raw. c \<notin> set [CHR 0x22, CHR '','', CHR ''\<newline>'']"
        "rest = [] \<or> hd rest \<in> set [CHR 0x22, CHR '','', CHR ''\<newline>'']"
        "constraint = remove_npm_prefix raw"
      by blast
    have u: "\<forall>c. raw = ''npm:'' @ c \<longrightarrow> constraint = c"
      using t(11) remove_npm_prefix_npm by auto
    have w: "\<not> startswith raw ''npm:'' \<longrightarrow> constraint = raw"
      using t(11) remove_npm_prefix_other by auto
    have body: "\<exists>d raw rest.
                  drop p text = name @ d # raw @ rest
                  \<and> k = p + length name + 1 + length raw
                  \<and> name \<noteq> [] \<and> name \<noteq> ''@''
                  \<and> CHR ''\<newline>'' \<notin> set name \<and> CHR ''@'' \<notin> set (tl name)
                  \<and> (d = CHR ''@'' \<or> d = CHR ''\<newline>'')
                  \<and> raw \<noteq> []
                  \<and> (\<forall>c \<in> set raw. c \<notin> set [CHR 0x22, CHR '','', CHR ''\<newline>''])
                  \<and> (rest = [] \<or> hd rest \<in> set [CHR 0x22, CHR '','', CHR ''\<newline>''])
                  \<and> (\<forall>c. raw = ''npm:'' @ c \<longrightarrow> constraint = c)
                  \<and> (\<not> startswith raw ''npm:'' \<longrightarrow> constraint = raw)"
      by (rule exI[of _ d], rule exI[of _ raw], rule exI[of _ rest])
         (intro conjI t(1-10) u w)
    show ?thesis unfolding pk x prod.case by (rule body)
  qed
  let ?pos = "\<lambda>a (ln, sources, fields').
                a \<le> length text
                \<and> (\<exists>j. (if False then yarn_dep1 else yarn_dep2) text a
                         = Some (j, ln, sources, fields'))
                \<and> ln = Suc (count_list (take a text) CHR ''\<newline>'')"
  let ?blk = "\<lambda>a (ln, sources, fields').
                (\<exists>j. yarn_dep2 text a = Some (j, ln, sources, fields'))
                \<and> (\<exists>spans r.
                      drop a text = CHR 0x22 # r
                      \<and> read_in_sequence 2 (Suc a) spans
                      \<and> list_all2 ?src spans sources)"
  have step: "?blk a b" if "?pos a b" for a b
  proof -
    obtain ln sources fields' where b: "b = (ln, sources, fields')" by (cases b) auto
    from that obtain j where y: "yarn_dep2 text a = Some (j, ln, sources, fields')"
      unfolding b by auto
    from yarn_dep2_source_spans[OF y] obtain spans r where
      sp: "drop a text = CHR 0x22 # r"
        "list_all2 (\<lambda>(p, k) src. source2 text p = Some (k, src)) spans sources"
        "read_in_sequence 2 (Suc a) spans" by blast
    have "list_all2 ?src spans sources"
      using sp(2) by (rule list_all2_mono) (rule src)
    with sp(1,3) y have "(\<exists>j. yarn_dep2 text a = Some (j, ln, sources, fields'))
                \<and> (\<exists>spans r.
                      drop a text = CHR 0x22 # r
                      \<and> read_in_sequence 2 (Suc a) spans
                      \<and> list_all2 ?src spans sources)" by blast
    then show ?thesis unfolding b prod.case .
  qed
  from assms have "parse (if False then yarn1 else yarn2 (decimal_digit E)) text = Some deps"
    by (simp add: safe_path_parse_def)
  from document_block_positions[OF this] obtain starts where
    st: "list_all2 ?pos starts deps" "sorted_wrt (<) starts"
    by blast
  have "list_all2 ?blk starts deps"
    using st(1) by (rule list_all2_mono) (rule step)
  with st(2) have a: "\<exists>starts. sorted_wrt (<) starts \<and> list_all2 ?blk starts deps"
    by blast
  have b: "remove_npm_prefix (''npm:'' @ c) = c
         \<and> remove_npm_prefix (''file:'' @ c) = ''file:'' @ c
         \<and> remove_npm_prefix (''patch:'' @ c) = ''patch:'' @ c
         \<and> remove_npm_prefix (''https:'' @ c) = ''https:'' @ c"
    by (simp add: remove_npm_prefix_def startswith_def)
  from a b show ?thesis by blast
qed

text \<open>The version 2 example: \<^verbatim>\<open>a@npm:^1.0.0\<close> and \<^verbatim>\<open>a@file:../x\<close> in the header of the first
  block, which starts at index 128 of the text; the two sources are read from index 129 to
  141 and from index 143 to 154.\<close>

theorem source2_npm_prefix_removed_witness:
  "safe_path_parse example_v2 (yarn2 (decimal_digit example_collaborators))
     = Some example_v2_blocks
   \<and> take 27 (drop 128 example_v2) = ''\"a@npm:^1.0.0, a@file:../x\"''
   \<and> read_in_sequence 2 (Suc 128) [(129, 141), (143, 154)]
   \<and> source2 example_v2 129 = Some (141, ''a'', ''^1.0.0'')
   \<and> source2 example_v2 143 = Some (154, ''a'', ''file:../x'')
   \<and> (\<exists>starts.
         sorted_wrt (<) starts
         \<and> list_all2
             (\<lambda>a (ln, sources, fields').
                (\<exists>j. yarn_dep2 example_v2 a = Some (j, ln, sources, fields'))
                \<and> (\<exists>spans r.
                      drop a example_v2 = CHR 0x22 # r
                      \<and> read_in_sequence 2 (Suc a) spans
                      \<and> list_all2
                          (\<lambda>(p, k) (name, constraint).
                             \<exists>d raw rest.
                               drop p example_v2 = name @ d # raw @ rest
                               \<and> k = p + length name + 1 + length raw
                               \<and> name \<noteq> [] \<and> name \<noteq> ''@''
                               \<and> CHR ''\<newline>'' \<notin> set name \<and> CHR ''@'' \<notin> set (tl name)
                               \<and> (d = CHR ''@'' \<or> d = CHR ''\<newline>'')
                               \<and> raw \<noteq> []
                               \<and> (\<forall>c \<in> set raw. c \<notin> set [CHR 0x22, CHR '','', CHR ''\<newline>''])
                               \<and> (rest = [] \<or> hd rest \<in> set [CHR 0x22, CHR '','', CHR ''\<newline>''])
                               \<and> (\<forall>c. raw = ''npm:'' @ c \<longrightarrow> constraint = c)
                               \<and> (\<not> startswith raw ''npm:'' \<longrightarrow> constraint = raw))
                          spans sources))
             starts example_v2_blocks)
   \<and> remove_npm_prefix (''npm:'' @ ''^1.0.0'') = ''^1.0.0''
   \<and> remove_npm_prefix (''file:'' @ ''../x'') = ''file:'' @ ''../x''"
proof -
  have a: "take 27 (drop 128 example_v2) = ''\"a@npm:^1.0.0, a@file:../x\"''"
    by (simp add: example_v2_def YARN2_PREFIX_def)
  have b: "source2 example_v2 129 = Some (141, ''a'', ''^1.0.0'')"
    by (simp add: example_v2_def combinator_defs grammar_defs)
  have c: "source2 example_v2 143 = Some (154, ''a'', ''file:../x'')"
    by (simp add: example_v2_def combinator_defs grammar_defs)
  have d: "read_in_sequence 2 (Suc 128) [(129, 141), (143, 154)]"
    by simp
  from source2_npm_prefix_removed[OF example_v2_parse, where c = "''^1.0.0''"]
    source2_npm_prefix_removed[OF example_v2_parse, where c = "''../x''"]
    example_v2_parse a b c d
  show ?thesis by blast
qed

text \<open>
  C9. For a text without the version 1 banner that the version 2 grammar parses, every
  emitted record whose block has a non-empty \<^verbatim>\<open>checksum\<close> field has exactly the hashes
  \<^verbatim>\<open>{"sha512": [checksum]}\<close>, the field's value as it stands.
\<close>

theorem checksum_reported_verbatim:
  assumes "\<not> startswith text YARN1_PREFIX"
    and "safe_path_parse text (yarn2 (decimal_digit E)) = Some deps"
  shows "list_all2
           (\<lambda>r (ln, sources, fields').
              \<forall>c. fields' ''checksum'' = Some c \<and> c \<noteq> [] \<longrightarrow>
                  allowed_hashes r = [''sha512'' \<mapsto> [c]])
           (parse_yarn E text manifest_path)
           (filter (\<lambda>(ln, sources, fields'). sources \<noteq> [] \<and> fields' ''version'' \<noteq> None) deps)"
proof -
  have "list_all2 (\<lambda>r (ln, sources, fields').
        allowed_hashes r = (case fields' ''checksum'' of None \<Rightarrow> Map.empty
           | Some c \<Rightarrow> if c \<noteq> [] then [''sha512'' \<mapsto> [c]] else Map.empty))
     (parse_yarn E text manifest_path)
     (filter (\<lambda>(ln, sources, fields'). sources \<noteq> [] \<and> fields' ''version'' \<noteq> None) deps)"
    using assms loop_checksum[where v = 2 and E = E] by (simp add: parse_yarn_unfold)
  then show ?thesis
    by (rule list_all2_mono) auto
qed

text \<open>The version 2 example: the first block has \<^verbatim>\<open>checksum: abcd\<close>.\<close>

theorem checksum_reported_verbatim_witness:
  "\<not> startswith example_v2 YARN1_PREFIX
   \<and> safe_path_parse example_v2 (yarn2 (decimal_digit example_collaborators))
       = Some example_v2_blocks
   \<and> map allowed_hashes (take 1 (parse_yarn example_collaborators example_v2 None))
       = [[''sha512'' \<mapsto> [''abcd'']]]"
proof -
  have "map allowed_hashes (take 1 (parse_yarn example_collaborators example_v2 None))
       = [[''sha512'' \<mapsto> [''abcd'']]]"
    using checksum_reported_verbatim[OF example_v2_banner example_v2_parse,
        where manifest_path = None]
    by (auto simp: example_v2_blocks_def list_all2_Cons2)
  with example_v2_banner example_v2_parse show ?thesis by blast
qed

text \<open>
  C10. For a text without the version 1 banner that the version 2 grammar parses, every
  emitted record whose block has no \<^verbatim>\<open>checksum\<close> field, or an empty one, has the empty
  hash map: the two cases give the same output.
\<close>

theorem empty_checksum_gives_no_hashes:
  assumes "\<not> startswith text YARN1_PREFIX"
    and "safe_path_parse text (yarn2 (decimal_digit E)) = Some deps"
  shows "list_all2
           (\<lambda>r (ln, sources, fields').
              fields' ''checksum'' = None \<or> fields' ''checksum'' = Some [] \<longrightarrow>
                  allowed_hashes r = Map.empty)
           (parse_yarn E text manifest_path)
           (filter (\<lambda>(ln, sources, fields'). sources \<noteq> [] \<and> fields' ''version'' \<noteq> None) deps)"
proof -
  have "list_all2 (\<lambda>r (ln, sources, fields').
        allowed_hashes r = (case fields' ''checksum'' of None \<Rightarrow> Map.empty
           | Some c \<Rightarrow> if c \<noteq> [] then [''sha512'' \<mapsto> [c]] else Map.empty))
     (parse_yarn E text manifest_path)
     (filter (\<lambda>(ln, sources, fields'). sources \<noteq> [] \<and> fields' ''version'' \<noteq> None) deps)"
    using assms loop_checksum[where v = 2 and E = E] by (simp add: parse_yarn_unfold)
  then show ?thesis
    by (rule list_all2_mono) auto
qed

text \<open>The version 2 example: the second block has \<^verbatim>\<open>checksum: ""\<close>.\<close>

theorem empty_checksum_gives_no_hashes_witness:
  "\<not> startswith example_v2 YARN1_PREFIX
   \<and> safe_path_parse example_v2 (yarn2 (decimal_digit example_collaborators))
       = Some example_v2_blocks
   \<and> map allowed_hashes (drop 1 (parse_yarn example_collaborators example_v2 None))
       = [Map.empty]"
proof -
  have "map allowed_hashes (drop 1 (parse_yarn example_collaborators example_v2 None))
       = [Map.empty]"
    using empty_checksum_gives_no_hashes[OF example_v2_banner example_v2_parse,
        where manifest_path = None]
    by (auto simp: example_v2_blocks_def list_all2_Cons2)
  with example_v2_banner example_v2_parse show ?thesis by blast
qed

text \<open>
  C3. Without a manifest path, or with a manifest that cannot be parsed, the manifest set
  is \<^verbatim>\<open>None\<close>; with a parsed manifest that has no \<^verbatim>\<open>dependencies\<close> entry it is the empty
  set; with such an entry it is the set of its (name, constraint) items. Every emitted
  record is \<open>Unknown\<close> when the manifest set is \<^verbatim>\<open>None\<close>, and otherwise \<open>Direct\<close> exactly when
  some pair of its block's source list is a member of the manifest set, else \<open>Transitive\<close>.
\<close>

theorem transitivity_classification:
  assumes "safe_path_parse text
             (if startswith text YARN1_PREFIX then yarn1 else yarn2 (decimal_digit E))
           = Some deps"
  shows "get_manifest_deps E None = None
         \<and> (json_doc_parse E path = None \<longrightarrow> get_manifest_deps E (Some path) = None)
         \<and> (json_doc_parse E path = Some j \<and> map_of (as_dict E j) ''dependencies'' = None
              \<longrightarrow> get_manifest_deps E (Some path) = Some {})
         \<and> (json_doc_parse E path = Some j \<and> map_of (as_dict E j) ''dependencies'' = Some d
              \<longrightarrow> get_manifest_deps E (Some path)
                    = Some {(k, as_str E v) | k v. (k, v) \<in> set (as_dict E d)})
         \<and> list_all2
             (\<lambda>r (ln, sources, fields').
                transitivity r =
                  (case get_manifest_deps E manifest_path of
                     None \<Rightarrow> Unknown
                   | Some m \<Rightarrow> if \<exists>x \<in> set sources. x \<in> m then Direct else Transitive))
             (parse_yarn E text manifest_path)
             (filter (\<lambda>(ln, sources, fields'). sources \<noteq> [] \<and> fields' ''version'' \<noteq> None) deps)"
proof -
  have a: "json_doc_parse E path = None \<longrightarrow> get_manifest_deps E (Some path) = None"
    by (simp add: get_manifest_deps_def)
  have b: "json_doc_parse E path = Some j \<and> map_of (as_dict E j) ''dependencies'' = None
              \<longrightarrow> get_manifest_deps E (Some path) = Some {}"
    by (simp add: get_manifest_deps_def)
  have c: "json_doc_parse E path = Some j \<and> map_of (as_dict E j) ''dependencies'' = Some d
              \<longrightarrow> get_manifest_deps E (Some path)
                    = Some {(k, as_str E v) | k v. (k, v) \<in> set (as_dict E d)}"
    by (force simp: get_manifest_deps_def)
  have d: "list_all2
             (\<lambda>r (ln, sources, fields').
                transitivity r =
                  (case get_manifest_deps E manifest_path of
                     None \<Rightarrow> Unknown
                   | Some m \<Rightarrow> if \<exists>x \<in> set sources. x \<in> m then Direct else Transitive))
             (parse_yarn E text manifest_path)
             (filter (\<lambda>(ln, sources, fields'). sources \<noteq> [] \<and> fields' ''version'' \<noteq> None) deps)"
    using assms loop_transitivity[where E = E and md = "get_manifest_deps E manifest_path" and deps = deps]
    by (simp add: parse_yarn_unfold transitivity_of_def)
  from get_manifest_deps_None a b c d show ?thesis by blast
qed

text \<open>The version 1 example, whose first block has the sources \<^verbatim>\<open>a@^1.0.0\<close> and \<^verbatim>\<open>a@^2.0.0\<close>,
  against a manifest that declares \<^verbatim>\<open>a\<close> at \<^verbatim>\<open>^2.0.0\<close>, against no manifest, against a
  manifest without dependencies and against one that cannot be parsed.\<close>

theorem transitivity_classification_witness:
  "safe_path_parse example_v1
     (if startswith example_v1 YARN1_PREFIX then yarn1
      else yarn2 (decimal_digit example_collaborators))
     = Some example_v1_blocks
   \<and> get_manifest_deps example_collaborators (Some ()) = Some {(''a'', ''^2.0.0'')}
   \<and> map transitivity (parse_yarn example_collaborators example_v1 (Some ()))
       = [Direct, Transitive]
   \<and> map transitivity (parse_yarn example_collaborators example_v1 None) = [Unknown, Unknown]
   \<and> get_manifest_deps no_deps_collaborators (Some ()) = Some {}
   \<and> map transitivity (parse_yarn no_deps_collaborators example_v1 (Some ()))
       = [Transitive, Transitive]
   \<and> json_doc_parse unparsable_collaborators () = None
   \<and> get_manifest_deps unparsable_collaborators (Some ()) = None
   \<and> map transitivity (parse_yarn unparsable_collaborators example_v1 (Some ()))
       = [Unknown, Unknown]"
proof -
  have h: "safe_path_parse example_v1
     (if startswith example_v1 YARN1_PREFIX then yarn1 else yarn2 (decimal_digit E))
     = Some example_v1_blocks" for E :: "(unit, json) collaborators"
    using example_v1_parse example_v1_banner by simp
  have m1: "get_manifest_deps example_collaborators (Some ()) = Some {(''a'', ''^2.0.0'')}"
    using transitivity_classification[OF h[of example_collaborators], where path = "()"
        and j = example_manifest and d = "JObject [(''a'', JString ''^2.0.0'')]"
        and manifest_path = None]
    by (simp add: example_collaborators_def example_manifest_def)
  have m2: "get_manifest_deps no_deps_collaborators (Some ()) = Some {}"
    using transitivity_classification[OF h[of no_deps_collaborators], where path = "()"
        and j = "JObject [(''name'', JString ''demo'')]" and d = undefined
        and manifest_path = None]
    by (simp add: no_deps_collaborators_def example_collaborators_def)
  have u: "json_doc_parse unparsable_collaborators () = None"
    by (simp add: unparsable_collaborators_def)
  have m3: "get_manifest_deps unparsable_collaborators (Some ()) = None"
    using transitivity_classification[OF h[of unparsable_collaborators], where path = "()"
        and j = undefined and d = undefined and manifest_path = None] u
    by simp
  have m0: "get_manifest_deps E None = None" for E :: "(unit, json) collaborators"
    using transitivity_classification[OF h[of E]] by blast
  have L: "list_all2
             (\<lambda>r (ln, sources, fields').
                transitivity r =
                  (case get_manifest_deps E mp of
                     None \<Rightarrow> Unknown
                   | Some m \<Rightarrow> if \<exists>x \<in> set sources. x \<in> m then Direct else Transitive))
             (parse_yarn E example_v1 mp)
             (filter (\<lambda>(ln, sources, fields'). sources \<noteq> [] \<and> fields' ''version'' \<noteq> None)
                example_v1_blocks)"
    for E :: "(unit, json) collaborators" and mp
    using transitivity_classification[OF h[of E], where path = "()" and j = undefined
        and d = undefined and manifest_path = mp]
    by blast
  have t1: "map transitivity (parse_yarn example_collaborators example_v1 (Some ()))
       = [Direct, Transitive]"
    using L[of example_collaborators "Some ()"] m1
    by (auto simp: example_v1_blocks_def list_all2_Cons2)
  have t0: "map transitivity (parse_yarn example_collaborators example_v1 None)
       = [Unknown, Unknown]"
    using L[of example_collaborators None] m0
    by (auto simp: example_v1_blocks_def list_all2_Cons2)
  have t2: "map transitivity (parse_yarn no_deps_collaborators example_v1 (Some ()))
       = [Transitive, Transitive]"
    using L[of no_deps_collaborators "Some ()"] m2
    by (auto simp: example_v1_blocks_def list_all2_Cons2)
  have t3: "map transitivity (parse_yarn unparsable_collaborators example_v1 (Some ()))
       = [Unknown, Unknown]"
    using L[of unparsable_collaborators "Some ()"] m3
    by (auto simp: example_v1_blocks_def list_all2_Cons2)
  from h[of example_collaborators] m1 m2 m3 u t0 t1 t2 t3 show ?thesis by simp
qed

text \<open>
  C7, as the code has it. A line of exactly two spaces, a key, the separator (one space in
  version 1, a colon and a space in version 2) and a non-empty value gives the pair of the
  key as written (quotes around a key are kept) and the value without any of its leading
  and trailing double quotes (all of them, not one layer). A line with any other number of
  leading spaces and a non-empty remainder is consumed up to the end of the line and gives
  no field.
\<close>

theorem field_line_key_verbatim_value_stripped:
  "(drop i s = ''  '' @ key @ '' '' @ val @ rest \<and> key \<noteq> [] \<and> CHR '' '' \<notin> set key
      \<and> CHR '':'' \<notin> set key \<and> CHR ''\<newline>'' \<notin> set key
      \<and> val \<noteq> [] \<and> CHR ''\<newline>'' \<notin> set val
      \<and> (rest = [] \<or> hd rest = CHR ''\<newline>'')
      \<longrightarrow> key_value1 s i
            = Some (i + 3 + length key + length val, Some (key, strip val [CHR 0x22])))
   \<and> (drop i s = ''  '' @ key @ '': '' @ val @ rest \<and> key \<noteq> [] \<and> hd key \<noteq> CHR '' ''
      \<and> CHR '':'' \<notin> set key \<and> CHR ''\<newline>'' \<notin> set key
      \<and> val \<noteq> [] \<and> CHR ''\<newline>'' \<notin> set val
      \<and> (rest = [] \<or> hd rest = CHR ''\<newline>'')
      \<longrightarrow> key_value2 s i
            = Some (i + 4 + length key + length val, Some (key, strip val [CHR 0x22])))
   \<and> (v = [] \<or> (hd v \<noteq> CHR 0x22 \<and> last v \<noteq> CHR 0x22)
      \<longrightarrow> strip (replicate m (CHR 0x22) @ v @ replicate k (CHR 0x22)) [CHR 0x22] = v)
   \<and> (drop i s = replicate n CHR '' '' @ body @ rest \<and> n \<noteq> 2 \<and> body \<noteq> []
      \<and> hd body \<noteq> CHR '' '' \<and> CHR ''\<newline>'' \<notin> set body
      \<and> (rest = [] \<or> hd rest = CHR ''\<newline>'')
      \<longrightarrow> key_value1 s i = Some (i + n + length body, None)
          \<and> key_value2 s i = Some (i + n + length body, None))"
  using key_value1_field[of i s key val rest] key_value2_field[of i s key val rest]
    strip_all_quotes[of v "CHR 0x22" m k] other_indentation[of i s n body rest]
  by blast

text \<open>Field lines of both versions, a value inside two layers of quotes, a nested line of
  four spaces and a line that is not indented.\<close>

theorem field_line_key_verbatim_value_stripped_witness:
  "key_value1 (''  version \"1.2.3\"'' @ ''\<newline>'') 0 = Some (17, Some (''version'', ''1.2.3''))
   \<and> key_value2 (''  version: \"1.2.3\"'' @ ''\<newline>'') 0 = Some (18, Some (''version'', ''1.2.3''))
   \<and> strip (replicate 2 (CHR 0x22) @ ''v'' @ replicate 2 (CHR 0x22)) [CHR 0x22] = ''v''
   \<and> key_value1 (replicate 4 CHR '' '' @ ''foo \"1\"'' @ ''\<newline>'') 0 = Some (11, None)
   \<and> key_value2 (replicate 0 CHR '' '' @ ''b@1:'' @ ''\<newline>'') 0 = Some (4, None)"
proof -
  note t1 = field_line_key_verbatim_value_stripped[where i = 0
      and s = "''  version \"1.2.3\"'' @ ''\<newline>''" and key = "''version''"
      and val = "''\"1.2.3\"''" and rest = "''\<newline>''"
      and v = "''v''" and m = 2 and k = 2 and n = 4 and body = "[]"]
  note t2 = field_line_key_verbatim_value_stripped[where i = 0
      and s = "''  version: \"1.2.3\"'' @ ''\<newline>''" and key = "''version''"
      and val = "''\"1.2.3\"''" and rest = "''\<newline>''"
      and v = "''v''" and m = 2 and k = 2 and n = 4 and body = "[]"]
  note t3 = field_line_key_verbatim_value_stripped[where i = 0
      and s = "replicate 4 CHR '' '' @ ''foo \"1\"'' @ ''\<newline>''" and key = "[]"
      and val = "[]" and rest = "''\<newline>''"
      and v = "''v''" and m = 2 and k = 2 and n = 4 and body = "''foo \"1\"''"]
  note t4 = field_line_key_verbatim_value_stripped[where i = 0
      and s = "replicate 0 CHR '' '' @ ''b@1:'' @ ''\<newline>''" and key = "[]"
      and val = "[]" and rest = "''\<newline>''"
      and v = "''v''" and m = 2 and k = 2 and n = 0 and body = "''b@1:''"]
  have a: "key_value1 (''  version \"1.2.3\"'' @ ''\<newline>'') 0
             = Some (17, Some (''version'', ''1.2.3''))"
    using t1 by (simp add: strip_def)
  have b: "key_value2 (''  version: \"1.2.3\"'' @ ''\<newline>'') 0
             = Some (18, Some (''version'', ''1.2.3''))"
    using t2 by (simp add: strip_def)
  have c: "strip (replicate 2 (CHR 0x22) @ ''v'' @ replicate 2 (CHR 0x22)) [CHR 0x22] = ''v''"
    using t1 by simp
  have d: "key_value1 (replicate 4 CHR '' '' @ ''foo \"1\"'' @ ''\<newline>'') 0 = Some (11, None)"
    using t3 by simp
  have e: "key_value2 (replicate 0 CHR '' '' @ ''b@1:'' @ ''\<newline>'') 0 = Some (4, None)"
    using t4 by simp
  from a b c d e show ?thesis by blast
qed

text \<open>The claim as stated fails on a quoted key and on a value inside two layers of quotes:
  the key keeps its quotes and the value loses both layers. It also fails on the empty line
  (no indentation, nothing after it), where the field grammar fails instead of consuming
  the line: that is how the field lines of a block end at the blank line after it.\<close>

theorem field_line_quotes_counterexample:
  "key_value1 ''  \"k\" \"\"v\"\"'' 0 = Some (11, Some (''\"k\"'', ''v''))
   \<and> key_value2 ''  \"k\": \"\"v\"\"'' 0 = Some (12, Some (''\"k\"'', ''v''))
   \<and> key_value1 ''\<newline>b@1:'' 0 = None
   \<and> key_value2 ''\<newline>b@1:'' 0 = None"
  by (simp add: combinator_defs grammar_defs)

text \<open>
  C8, as the code has it. A block header is not refused for having no source. When no
  source spec can be read where a header starts, the source list is empty and the
  separated-list grammar has not failed; when the header terminator follows (in version 2,
  inside an empty pair of quotes), the header is parsed with zero sources, and record
  assembly skips the block and goes on with the next. On the text itself: a header that is
  only the terminator (version 1) or an empty pair of quotes and the terminator (version 2)
  is parsed with zero sources when the text ends there or goes on with a delimiter of the
  constraint scan or a newline. When a line of plain text follows instead, the source
  grammar reads a source across the terminator (its name the colon, its constraint that
  line), the terminator is then missing, and the header fails.
\<close>

theorem header_without_sources_parses:
  "(alt_p (quoted (source1 True)) (source1 False) s i = None
      \<longrightarrow> multi_source1 s i = Some (i, []))
   \<and> (alt_p (quoted (source1 True)) (source1 False) s i = None \<and> drop i s = '':\<newline>'' @ rest
      \<longrightarrow> skip_p multi_source1 (string_p '':\<newline>'') s i = Some (i + 2, []))
   \<and> (source2 s (Suc i) = None \<and> drop i s = ''\"\":\<newline>'' @ rest
      \<longrightarrow> skip_p multi_source2 (string_p '':\<newline>'') s i = Some (i + 4, []))
   \<and> parse_yarn_loop E v md ((ln, [], fields') # deps) = parse_yarn_loop E v md deps
   \<and> (drop i s = '':\<newline>'' @ rest
        \<and> (rest = [] \<or> hd rest \<in> set [CHR 0x22, CHR '':'', CHR '','', CHR ''\<newline>''])
      \<longrightarrow> alt_p (quoted (source1 True)) (source1 False) s i = None
          \<and> skip_p multi_source1 (string_p '':\<newline>'') s i = Some (i + 2, []))
   \<and> (drop i s = ''\"\":\<newline>'' @ rest
        \<and> (rest = [] \<or> hd rest \<in> set [CHR 0x22, CHR '','', CHR ''\<newline>''])
      \<longrightarrow> source2 s (Suc i) = None
          \<and> skip_p multi_source2 (string_p '':\<newline>'') s i = Some (i + 4, []))
   \<and> (drop i s = '':\<newline>'' @ raw @ rest \<and> raw \<noteq> []
        \<and> (\<forall>c \<in> set raw. c \<notin> set [CHR 0x22, CHR '':'', CHR '','', CHR ''\<newline>''])
        \<and> (rest = [] \<or> hd rest = CHR ''\<newline>'')
      \<longrightarrow> alt_p (quoted (source1 True)) (source1 False) s i
            = Some (i + 2 + length raw, '':'', raw)
          \<and> skip_p multi_source1 (string_p '':\<newline>'') s i = None)
   \<and> (drop i s = ''\"\":\<newline>'' @ raw @ rest \<and> raw \<noteq> []
        \<and> (\<forall>c \<in> set raw. c \<notin> set [CHR 0x22, CHR '','', CHR ''\<newline>''])
        \<and> (rest = [] \<or> hd rest = CHR ''\<newline>'')
      \<longrightarrow> source2 s (Suc i)
            = Some (i + 4 + length raw, [CHR 0x22, CHR '':''], remove_npm_prefix raw)
          \<and> skip_p multi_source2 (string_p '':\<newline>'') s i = None)"
proof -
  have a: "alt_p (quoted (source1 True)) (source1 False) s i = None
      \<longrightarrow> multi_source1 s i = Some (i, [])"
    by (simp add: multi_source1_def sep_by_no_item)
  have b: "alt_p (quoted (source1 True)) (source1 False) s i = None \<and> drop i s = '':\<newline>'' @ rest
      \<longrightarrow> skip_p multi_source1 (string_p '':\<newline>'') s i = Some (i + 2, [])"
  proof
    assume h: "alt_p (quoted (source1 True)) (source1 False) s i = None
                 \<and> drop i s = '':\<newline>'' @ rest"
    then have m: "multi_source1 s i = Some (i, [])" using a by blast
    from h string_p_at[of i s "'':\<newline>''" rest]
    have "string_p '':\<newline>'' s i = Some (i + 2, '':\<newline>'')" by simp
    with m show "skip_p multi_source1 (string_p '':\<newline>'') s i = Some (i + 2, [])"
      by (simp add: skip_p_def bind_def success_def)
  qed
  have c: "source2 s (Suc i) = None \<and> drop i s = ''\"\":\<newline>'' @ rest
      \<longrightarrow> skip_p multi_source2 (string_p '':\<newline>'') s i = Some (i + 4, [])"
  proof
    assume h: "source2 s (Suc i) = None \<and> drop i s = ''\"\":\<newline>'' @ rest"
    then have d0: "drop i s = [CHR 0x22] @ ([CHR 0x22] @ '':\<newline>'' @ rest)" by simp
    from string_p_at[OF d0] have q1: "string_p [CHR 0x22] s i = Some (Suc i, [CHR 0x22])"
      by simp
    from drop_after[OF d0] have d1: "drop (Suc i) s = [CHR 0x22] @ ('':\<newline>'' @ rest)"
      by simp
    from string_p_at[OF d1]
    have q2: "string_p [CHR 0x22] s (Suc i) = Some (Suc (Suc i), [CHR 0x22])"
      by simp
    from drop_after[OF d1] have d2: "drop (Suc (Suc i)) s = '':\<newline>'' @ rest" by simp
    from string_p_at[OF d2]
    have t: "string_p '':\<newline>'' s (Suc (Suc i)) = Some (i + 4, '':\<newline>'')"
      by simp
    from h have "sep_by source2 (string_p '', '') s (Suc i) = Some (Suc i, [])"
      by (simp add: sep_by_no_item)
    with q1 q2 t show "skip_p multi_source2 (string_p '':\<newline>'') s i = Some (i + 4, [])"
      by (simp add: multi_source2_def quoted_def skip_p_def then_p_def bind_def success_def)
  qed
  have d: "parse_yarn_loop E v md ((ln, [], fields') # deps) = parse_yarn_loop E v md deps"
    by simp
  have e: "drop i s = '':\<newline>'' @ rest
        \<and> (rest = [] \<or> hd rest \<in> set [CHR 0x22, CHR '':'', CHR '','', CHR ''\<newline>''])
      \<longrightarrow> alt_p (quoted (source1 True)) (source1 False) s i = None
          \<and> skip_p multi_source1 (string_p '':\<newline>'') s i = Some (i + 2, [])"
    using header1_without_sources[of i s rest] by blast
  have f: "drop i s = ''\"\":\<newline>'' @ rest
        \<and> (rest = [] \<or> hd rest \<in> set [CHR 0x22, CHR '','', CHR ''\<newline>''])
      \<longrightarrow> source2 s (Suc i) = None
          \<and> skip_p multi_source2 (string_p '':\<newline>'') s i = Some (i + 4, [])"
  proof
    assume h: "drop i s = ''\"\":\<newline>'' @ rest
        \<and> (rest = [] \<or> hd rest \<in> set [CHR 0x22, CHR '','', CHR ''\<newline>''])"
    then have d0: "drop i s = [CHR 0x22, CHR 0x22] @ '':\<newline>'' @ rest" by simp
    from header2_without_sources[OF d0] h
    show "source2 s (Suc i) = None
          \<and> skip_p multi_source2 (string_p '':\<newline>'') s i = Some (i + 4, [])"
      by blast
  qed
  have g: "drop i s = '':\<newline>'' @ raw @ rest \<and> raw \<noteq> []
        \<and> (\<forall>c \<in> set raw. c \<notin> set [CHR 0x22, CHR '':'', CHR '','', CHR ''\<newline>''])
        \<and> (rest = [] \<or> hd rest = CHR ''\<newline>'')
      \<longrightarrow> alt_p (quoted (source1 True)) (source1 False) s i
            = Some (i + 2 + length raw, '':'', raw)
          \<and> skip_p multi_source1 (string_p '':\<newline>'') s i = None"
  proof
    assume h: "drop i s = '':\<newline>'' @ raw @ rest \<and> raw \<noteq> []
        \<and> (\<forall>c \<in> set raw. c \<notin> set [CHR 0x22, CHR '':'', CHR '','', CHR ''\<newline>''])
        \<and> (rest = [] \<or> hd rest = CHR ''\<newline>'')"
    then have w: "drop i s = '':\<newline>'' @ raw @ rest" "raw \<noteq> []" "CHR 0x22 \<notin> set raw"
      "CHR '':'' \<notin> set raw" "CHR '','' \<notin> set raw" "CHR ''\<newline>'' \<notin> set raw"
      "rest = [] \<or> hd rest = CHR ''\<newline>''"
      by auto
    from header1_reads_next_line[OF w]
    show "alt_p (quoted (source1 True)) (source1 False) s i
            = Some (i + 2 + length raw, '':'', raw)
          \<and> skip_p multi_source1 (string_p '':\<newline>'') s i = None"
      by blast
  qed
  have k: "drop i s = ''\"\":\<newline>'' @ raw @ rest \<and> raw \<noteq> []
        \<and> (\<forall>c \<in> set raw. c \<notin> set [CHR 0x22, CHR '','', CHR ''\<newline>''])
        \<and> (rest = [] \<or> hd rest = CHR ''\<newline>'')
      \<longrightarrow> source2 s (Suc i)
            = Some (i + 4 + length raw, [CHR 0x22, CHR '':''], remove_npm_prefix raw)
          \<and> skip_p multi_source2 (string_p '':\<newline>'') s i = None"
  proof
    assume h: "drop i s = ''\"\":\<newline>'' @ raw @ rest \<and> raw \<noteq> []
        \<and> (\<forall>c \<in> set raw. c \<notin> set [CHR 0x22, CHR '','', CHR ''\<newline>''])
        \<and> (rest = [] \<or> hd rest = CHR ''\<newline>'')"
    then have w: "drop i s = [CHR 0x22, CHR 0x22] @ '':\<newline>'' @ raw @ rest" "raw \<noteq> []"
      "CHR 0x22 \<notin> set raw" "CHR '','' \<notin> set raw" "CHR ''\<newline>'' \<notin> set raw"
      "rest = [] \<or> hd rest = CHR ''\<newline>''"
      by auto
    from header2_reads_next_line[OF w]
    show "source2 s (Suc i)
            = Some (i + 4 + length raw, [CHR 0x22, CHR '':''], remove_npm_prefix raw)
          \<and> skip_p multi_source2 (string_p '':\<newline>'') s i = None"
      by blast
  qed
  from a b c d e f g k show ?thesis by blast
qed

text \<open>A version 1 header that is only the terminator and a version 2 header with empty
  quotes, each at the end of the text and each followed by a field line; and a block
  without sources in record assembly.\<close>

theorem header_without_sources_parses_witness:
  "alt_p (quoted (source1 True)) (source1 False) '':\<newline>'' 0 = None
   \<and> multi_source1 '':\<newline>'' 0 = Some (0, [])
   \<and> skip_p multi_source1 (string_p '':\<newline>'') '':\<newline>'' 0 = Some (2, [])
   \<and> source2 ''\"\":\<newline>'' (Suc 0) = None
   \<and> skip_p multi_source2 (string_p '':\<newline>'') ''\"\":\<newline>'' 0 = Some (4, [])
   \<and> alt_p (quoted (source1 True)) (source1 False) '':\<newline>  version 2\<newline>'' 0
       = Some (13, '':'', ''  version 2'')
   \<and> skip_p multi_source1 (string_p '':\<newline>'') '':\<newline>  version 2\<newline>'' 0 = None
   \<and> source2 ''\"\":\<newline>  version: 2'' (Suc 0)
       = Some (16, [CHR 0x22, CHR '':''], ''  version: 2'')
   \<and> skip_p multi_source2 (string_p '':\<newline>'') ''\"\":\<newline>  version: 2'' 0 = None
   \<and> parse_yarn_loop example_collaborators 2 None [(12, [], Map.empty)] = []"
proof -
  note t1 = header_without_sources_parses[where s = "'':\<newline>''" and i = 0
      and rest = "[]" and raw = "''x''" and E = example_collaborators and v = 2 and md = None
      and ln = 12 and fields' = "Map.empty" and deps = "[]"]
  note t2 = header_without_sources_parses[where s = "''\"\":\<newline>''" and i = 0
      and rest = "[]" and raw = "''x''" and E = example_collaborators and v = 2 and md = None
      and ln = 12 and fields' = "Map.empty" and deps = "[]"]
  note t3 = header_without_sources_parses[where s = "'':\<newline>  version 2\<newline>''" and i = 0
      and rest = "''\<newline>''" and raw = "''  version 2''" and E = example_collaborators
      and v = 2 and md = None and ln = 12 and fields' = "Map.empty" and deps = "[]"]
  note t4 = header_without_sources_parses[where s = "''\"\":\<newline>  version: 2''" and i = 0
      and rest = "[]" and raw = "''  version: 2''" and E = example_collaborators
      and v = 2 and md = None and ln = 12 and fields' = "Map.empty" and deps = "[]"]
  have a: "alt_p (quoted (source1 True)) (source1 False) '':\<newline>'' 0 = None
           \<and> skip_p multi_source1 (string_p '':\<newline>'') '':\<newline>'' 0 = Some (2, [])"
    using t1 by simp
  have a': "multi_source1 '':\<newline>'' 0 = Some (0, [])"
    using t1 a by simp
  have b: "source2 ''\"\":\<newline>'' (Suc 0) = None
           \<and> skip_p multi_source2 (string_p '':\<newline>'') ''\"\":\<newline>'' 0 = Some (4, [])"
    using t2 by simp
  have c: "alt_p (quoted (source1 True)) (source1 False) '':\<newline>  version 2\<newline>'' 0
             = Some (13, '':'', ''  version 2'')
           \<and> skip_p multi_source1 (string_p '':\<newline>'') '':\<newline>  version 2\<newline>'' 0 = None"
    using t3 by simp
  have d: "source2 ''\"\":\<newline>  version: 2'' (Suc 0)
             = Some (16, [CHR 0x22, CHR '':''], ''  version: 2'')
           \<and> skip_p multi_source2 (string_p '':\<newline>'') ''\"\":\<newline>  version: 2'' 0 = None"
    using t4 by (simp add: remove_npm_prefix_def startswith_def)
  have e: "parse_yarn_loop example_collaborators 2 None [(12, [], Map.empty)] = []"
    using t1 by simp
  from a a' b c d e show ?thesis by blast
qed

text \<open>The claim as stated fails on a document whose last block header is only the
  terminator (version 1) or an empty pair of quotes and the terminator (version 2): the
  header has no source, yet the header and the document are parsed, and the blocks before it
  give their records.\<close>

theorem header_without_sources_counterexample:
  "skip_p multi_source2 (string_p '':\<newline>'') ''\"\":\<newline>'' 0 = Some (4, [])
   \<and> skip_p multi_source1 (string_p '':\<newline>'') '':\<newline>'' 0 = Some (2, [])
   \<and> safe_path_parse sourceless_v2 (yarn2 (decimal_digit example_collaborators))
       = Some sourceless_v2_blocks
   \<and> map line_number (parse_yarn example_collaborators sourceless_v2 None) = [4, 8]
   \<and> safe_path_parse sourceless_v1 yarn1 = Some sourceless_v1_blocks
   \<and> map line_number (parse_yarn example_collaborators sourceless_v1 None) = [4, 11]"
proof -
  have a: "skip_p multi_source2 (string_p '':\<newline>'') ''\"\":\<newline>'' 0 = Some (4, [])"
    by (simp add: combinator_defs grammar_defs)
  have b: "skip_p multi_source1 (string_p '':\<newline>'') '':\<newline>'' 0 = Some (2, [])"
    by (simp add: combinator_defs grammar_defs)
  have c: "map line_number (parse_yarn example_collaborators sourceless_v2 None) = [4, 8]"
    using sourceless_v2_parse sourceless_v2_banner
    by (simp add: parse_yarn_unfold sourceless_v2_blocks_def example_v2_blocks_def)
  have d: "map line_number (parse_yarn example_collaborators sourceless_v1 None) = [4, 11]"
    using sourceless_v1_parse sourceless_v1_banner
    by (simp add: parse_yarn_unfold sourceless_v1_blocks_def example_v1_blocks_def)
  from a b c d sourceless_v2_parse sourceless_v1_parse show ?thesis by blast
qed

end
